theory Spec2Isabelle
  imports Complex_Main
begin

section \<open>Python strings\<close>

text \<open>
  A Python \<open>str\<close> is modelled as a \<open>string\<close> (a list of \<open>char\<close>), one \<open>char\<close> per
  character, read as ASCII: the character classes below are the ASCII part of Python's
  \<open>str.isspace\<close>, \<open>str.isalnum\<close> and of the \<open>\\s\<close> and \<open>\\w\<close> classes of \<open>re\<close>, and
  \<open>upper\<close> maps \<open>a\<close>..\<open>z\<close> to \<open>A\<close>..\<open>Z\<close> and leaves every other character alone.
\<close>

definition py_isspace :: "char \<Rightarrow> bool" where
  "py_isspace c = (c \<in> set [CHR '' '', CHR 0x09, CHR 0x0A, CHR 0x0B, CHR 0x0C, CHR 0x0D,
                              CHR 0x1C, CHR 0x1D, CHR 0x1E, CHR 0x1F])"

definition lower_letters :: string where
  "lower_letters = ''abcdefghijklmnopqrstuvwxyz''"

definition upper_letters :: string where
  "upper_letters = ''ABCDEFGHIJKLMNOPQRSTUVWXYZ''"

definition py_isalnum :: "char \<Rightarrow> bool" where
  "py_isalnum c = (c \<in> set (lower_letters @ upper_letters @ ''0123456789''))"

definition re_word :: "char \<Rightarrow> bool" where
  \<comment> \<open>the class \<open>\\w\<close>\<close>
  "re_word c = (py_isalnum c \<or> c = CHR ''_'')"

definition char_upper :: "char \<Rightarrow> char" where
  "char_upper c = (case map_of (zip lower_letters upper_letters) c of Some u \<Rightarrow> u | None \<Rightarrow> c)"

definition char_lower :: "char \<Rightarrow> char" where
  "char_lower c = (case map_of (zip upper_letters lower_letters) c of Some l \<Rightarrow> l | None \<Rightarrow> c)"

definition upper :: "string \<Rightarrow> string" where
  "upper s = map char_upper s"

definition lower :: "string \<Rightarrow> string" where
  "lower s = map char_lower s"

definition slice :: "string \<Rightarrow> nat \<Rightarrow> nat \<Rightarrow> string" where
  \<comment> \<open>\<open>s[i:j]\<close> for indices that are not negative; out-of-range slices are short or empty\<close>
  "slice s i j = take (j - i) (drop i s)"

definition startswith :: "string \<Rightarrow> string \<Rightarrow> bool" where
  "startswith s p = (take (length p) s = p)"

fun find_aux :: "string \<Rightarrow> string \<Rightarrow> nat \<Rightarrow> int" where
  "find_aux sub [] i = (if sub = [] then int i else -1)"
| "find_aux sub (c # cs) i = (if startswith (c # cs) sub then int i else find_aux sub cs (Suc i))"

definition find_from :: "string \<Rightarrow> string \<Rightarrow> nat \<Rightarrow> int" where
  \<comment> \<open>\<open>s.find(sub, start)\<close>: the lowest index from \<open>start\<close> on where \<open>sub\<close> occurs, or \<open>-1\<close>\<close>
  "find_from s sub start = (if length s < start then -1 else find_aux sub (drop start s) start)"

definition strip :: "string \<Rightarrow> string" where
  "strip s = rev (dropWhile py_isspace (rev (dropWhile py_isspace s)))"

section \<open>Structural metrics scanner\<close>

subsection \<open>Subquery depth\<close>

text \<open>
  The first \<open>while\<close> loop of \<open>_calculate_metrics\<close>: \<open>i\<close> runs over the indices of \<open>sql\<close>,
  \<open>cur\<close> is \<open>current_depth\<close> and \<open>mx\<close> is \<open>max_depth\<close>. The upper-cased copy is an argument
  of the loop, since the source reads it at the same index as \<open>sql\<close>.
\<close>

function depth_loop :: "string \<Rightarrow> string \<Rightarrow> nat \<Rightarrow> int \<Rightarrow> int \<Rightarrow> int" where
  "depth_loop sql sql_upper i cur mx =
     (if i < length sql then
        (if sql ! i = CHR ''('' \<and> startswith (slice sql_upper i (i + 10)) ''(SELECT''
         then depth_loop sql sql_upper (Suc i) (cur + 1) (max mx (cur + 1))
         else if sql ! i = CHR '')'' \<and> cur > 0
         then depth_loop sql sql_upper (Suc i) (cur - 1) mx
         else depth_loop sql sql_upper (Suc i) cur mx)
      else mx)"
  by pat_completeness auto
termination
  by (relation "measure (\<lambda>(sql, sql_upper, i, cur, mx). length sql - i)") auto

declare depth_loop.simps [simp del]

definition subquery_depth :: "string \<Rightarrow> int" where
  "subquery_depth sql = min (depth_loop sql (upper sql) 0 0 0) 5"

subsection \<open>Top-level select column count\<close>

text \<open>
  The scan for the first \<open>FROM\<close> outside parentheses. The source's loop condition
  \<open>i < len(sql) - 3\<close> is written \<open>i + 3 < length sql\<close>, the same over the integers; the
  result is \<open>from_pos\<close>, \<open>-1\<close> when the loop ends without a \<open>break\<close>.
\<close>

function from_loop :: "string \<Rightarrow> string \<Rightarrow> nat \<Rightarrow> int \<Rightarrow> int" where
  "from_loop sql sql_upper i depth =
     (if i + 3 < length sql then
        (if sql ! i = CHR ''('' then from_loop sql sql_upper (Suc i) (depth + 1)
         else if sql ! i = CHR '')'' then from_loop sql sql_upper (Suc i) (depth - 1)
         else if depth = 0 \<and> slice sql_upper i (i + 4) = ''FROM'' then
           (let before_ok = (i = 0 \<or> \<not> py_isalnum (sql ! (i - 1)));
                after_ok = (i + 4 \<ge> length sql \<or> \<not> py_isalnum (sql ! (i + 4)))
            in if before_ok \<and> after_ok then int i
               else from_loop sql sql_upper (Suc i) depth)
         else from_loop sql sql_upper (Suc i) depth)
      else -1)"
  by pat_completeness auto
termination
  by (relation "measure (\<lambda>(sql, sql_upper, i, depth). length sql - i)") auto

declare from_loop.simps [simp del]

fun match_ci :: "string \<Rightarrow> string \<Rightarrow> string option" where
  \<comment> \<open>a literal matched case-insensitively at the start of the text: the rest of the text\<close>
  "match_ci [] s = Some s"
| "match_ci (p # ps) [] = None"
| "match_ci (p # ps) (c # cs) = (if char_upper p = char_upper c then match_ci ps cs else None)"

definition skip_spaces1 :: "string \<Rightarrow> string option" where
  \<comment> \<open>\<open>\\s+\<close>: one or more white-space characters, as many as there are\<close>
  "skip_spaces1 s = (case s of [] \<Rightarrow> None
       | c # cs \<Rightarrow> if py_isspace c then Some (dropWhile py_isspace cs) else None)"

definition strip_distinct :: "string \<Rightarrow> string" where
  \<comment> \<open>\<open>re.sub(r'^\\s*(ALL\\s+)?DISTINCT\\s+', '', s, flags=re.IGNORECASE)\<close>\<close>
  "strip_distinct s =
     (let r0 = dropWhile py_isspace s;
          r1 = (case match_ci ''ALL'' r0 of None \<Rightarrow> r0
                | Some r \<Rightarrow> (case skip_spaces1 r of None \<Rightarrow> r0 | Some r' \<Rightarrow> r'))
      in case match_ci ''DISTINCT'' r1 of None \<Rightarrow> s
         | Some r \<Rightarrow> (case skip_spaces1 r of None \<Rightarrow> s | Some r' \<Rightarrow> r'))"

definition is_star :: "string \<Rightarrow> bool" where
  \<comment> \<open>\<open>re.match(r'^\\s*\\*\\s*$', s)\<close>\<close>
  "is_star s = (case dropWhile py_isspace s of [] \<Rightarrow> False
                | c # cs \<Rightarrow> c = CHR ''*'' \<and> dropWhile py_isspace cs = [])"

definition is_qualified_star :: "string \<Rightarrow> bool" where
  \<comment> \<open>\<open>re.match(r'^\\s*\\w+\\.\\*\\s*$', s)\<close>\<close>
  "is_qualified_star s =
     (let r = dropWhile py_isspace s; w = takeWhile re_word r
      in w \<noteq> [] \<and> (case dropWhile re_word r of
            d # st # cs \<Rightarrow> d = CHR ''.'' \<and> st = CHR ''*'' \<and> dropWhile py_isspace cs = []
          | _ \<Rightarrow> False))"

definition not_paren :: "char \<Rightarrow> bool" where
  "not_paren c = (c \<noteq> CHR ''('' \<and> c \<noteq> CHR '')'')"

fun paren_search :: "string \<Rightarrow> nat \<Rightarrow> (nat \<times> nat) option" where
  \<comment> \<open>\<open>re.search(r'\\([^()]*\\)', s)\<close>: start and end of the leftmost match, the text
      being the part of \<open>s\<close> from index \<open>i\<close> on\<close>
  "paren_search [] i = None"
| "paren_search (c # cs) i =
     (if c = CHR ''('' \<and> (case dropWhile not_paren cs of [] \<Rightarrow> False | d # _ \<Rightarrow> d = CHR '')'')
      then Some (i, i + length (takeWhile not_paren cs) + 2)
      else paren_search cs (Suc i))"

fun placeholder_loop :: "nat \<Rightarrow> string \<Rightarrow> string" where
  \<comment> \<open>\<open>for _ in range(n)\<close>: replace the leftmost innermost group, stop when there is none\<close>
  "placeholder_loop 0 processed = processed"
| "placeholder_loop (Suc n) processed =
     (case paren_search processed 0 of None \<Rightarrow> processed
      | Some (a, b) \<Rightarrow> placeholder_loop n (take a processed @ ''__PH__'' @ drop b processed))"

definition select_column_count :: "string \<Rightarrow> int" where
  "select_column_count sql =
     (let sql_upper = upper sql; select_start = find_from sql_upper ''SELECT'' 0
      in if select_start = -1 then 0
         else
           (let start_pos = nat select_start + 6;
                from_pos = from_loop sql sql_upper start_pos 0
            in if from_pos = -1 then 0
               else
                 (let select_clause = strip (slice sql start_pos (nat from_pos));
                      select_clause_clean = strip_distinct select_clause
                  in if is_star select_clause_clean then -1
                     else if is_qualified_star select_clause_clean then -1
                     else int (count_list (placeholder_loop 50 select_clause_clean) CHR '','') + 1)))"

subsection \<open>Top-level WHERE condition count\<close>

fun where_end_loop :: "string \<Rightarrow> nat \<Rightarrow> string list \<Rightarrow> nat \<Rightarrow> nat" where
  \<comment> \<open>the \<open>for keyword in end_keywords\<close> loop, \<open>where_end\<close> being the last argument\<close>
  "where_end_loop sql_upper where_start [] where_end = where_end"
| "where_end_loop sql_upper where_start (keyword # ks) where_end =
     (let pos = find_from sql_upper keyword where_start
      in if pos \<noteq> -1 \<and> pos < int where_end
         then where_end_loop sql_upper where_start ks (nat pos)
         else where_end_loop sql_upper where_start ks where_end)"

function skip_blank :: "string \<Rightarrow> nat \<Rightarrow> nat" where
  \<comment> \<open>the inner \<open>while\<close> loop: \<open>j\<close> moves over blanks, tabs and newlines\<close>
  "skip_blank where_clause j =
     (if j < length where_clause \<and> where_clause ! j \<in> set [CHR '' '', CHR 0x09, CHR 0x0A]
      then skip_blank where_clause (Suc j) else j)"
  by pat_completeness auto
termination
  by (relation "measure (\<lambda>(where_clause, j). length where_clause - j)") auto

declare skip_blank.simps [simp del]

function and_or_loop :: "string \<Rightarrow> string \<Rightarrow> nat \<Rightarrow> int \<Rightarrow> int \<Rightarrow> int" where
  "and_or_loop where_clause where_upper i depth and_or_count =
     (if i < length where_clause then
        (if where_clause ! i = CHR ''('' then
           (let j = skip_blank where_clause (i + 1)
            in if slice where_upper j (j + 6) = ''SELECT''
               then and_or_loop where_clause where_upper (Suc i) (depth + 1) and_or_count
               else and_or_loop where_clause where_upper (Suc i) depth and_or_count)
         else if where_clause ! i = CHR '')'' \<and> depth > 0
         then and_or_loop where_clause where_upper (Suc i) (depth - 1) and_or_count
         else if depth = 0 then
           (if slice where_upper i (i + 4) = ''AND '' \<or> slice where_upper i (i + 3) = ''OR ''
            then and_or_loop where_clause where_upper (Suc i) depth (and_or_count + 1)
            else and_or_loop where_clause where_upper (Suc i) depth and_or_count)
         else and_or_loop where_clause where_upper (Suc i) depth and_or_count)
      else and_or_count)"
  by pat_completeness auto
termination
  by (relation "measure (\<lambda>(where_clause, where_upper, i, d, n). length where_clause - i)") auto

declare and_or_loop.simps [simp del]

definition where_condition_count :: "string \<Rightarrow> int" where
  "where_condition_count sql =
     (let sql_upper = upper sql; where_start = find_from sql_upper ''WHERE'' 0
      in if where_start = -1 then 0
         else
           (let where_end = where_end_loop sql_upper (nat where_start)
                              [''GROUP BY'', ''ORDER BY'', ''HAVING'', ''LIMIT''] (length sql);
                where_clause = slice sql (nat where_start + 5) where_end;
                where_upper = upper where_clause;
                and_or_count = and_or_loop where_clause where_upper 0 0 0
            in if strip where_clause \<noteq> [] then and_or_count + 1 else 0))"

section \<open>SQL preprocessing\<close>

text \<open>
  \<open>re.sub(pattern, repl, s)\<close> scans \<open>s\<close> from the left: where the pattern matches, the
  replacement is written and the scan goes on behind the match; elsewhere one character
  is copied. A pattern is given by its matcher at the start of a text, which returns the
  replacement and the text behind the match. None of the patterns below matches the
  empty string, so the test on the lengths never fails for them.
\<close>

type_synonym matcher = "string \<Rightarrow> (string \<times> string) option"

function re_sub :: "matcher \<Rightarrow> string \<Rightarrow> string" where
  "re_sub m [] = []"
| "re_sub m (c # cs) =
     (case m (c # cs) of
        None \<Rightarrow> c # re_sub m cs
      | Some (rep, rest) \<Rightarrow>
          if length rest < length (c # cs) then rep @ re_sub m rest else c # re_sub m cs)"
  by pat_completeness auto
termination
  by (relation "measure (\<lambda>(m, s). length s)") auto

declare re_sub.simps [simp del]

definition match_lit :: "string \<Rightarrow> string \<Rightarrow> string option" where
  \<comment> \<open>a literal at the start of the text: the rest of the text\<close>
  "match_lit p s = (if startswith s p then Some (drop (length p) s) else None)"

fun split_first :: "string \<Rightarrow> string \<Rightarrow> (string \<times> string) option" where
  \<comment> \<open>the text before and behind the first occurrence of \<open>sub\<close>\<close>
  "split_first sub [] = (if sub = [] then Some ([], []) else None)"
| "split_first sub (c # cs) =
     (if startswith (c # cs) sub then Some ([], drop (length sub) (c # cs))
      else (case split_first sub cs of None \<Rightarrow> None
            | Some (before, behind) \<Rightarrow> Some (c # before, behind)))"

definition cdata_at :: matcher where
  \<comment> \<open>\<open><!\\[CDATA\\[(.*?)\\]\\]>\<close> with \<open>re.DOTALL\<close>, replaced by group 1\<close>
  "cdata_at s = (case match_lit ''<![CDATA['' s of None \<Rightarrow> None
                 | Some r \<Rightarrow> split_first '']]>'' r)"

definition tag_names :: "string list" where
  "tag_names = [''if'', ''choose'', ''when'', ''otherwise'', ''foreach'', ''where'', ''set'', ''trim'']"

fun match_alt :: "string list \<Rightarrow> string \<Rightarrow> string option" where
  \<comment> \<open>an alternation of literals, case-insensitive, tried in order\<close>
  "match_alt [] s = None"
| "match_alt (n # ns) s = (case match_ci n s of Some r \<Rightarrow> Some r | None \<Rightarrow> match_alt ns s)"

definition not_gt :: "char \<Rightarrow> bool" where
  "not_gt c = (c \<noteq> CHR ''>'')"

definition open_tag_at :: matcher where
  \<comment> \<open>\<open><(if|choose|when|otherwise|foreach|where|set|trim)[^>]*>\<close>, case-insensitive,
      replaced by one blank\<close>
  "open_tag_at s = (case s of [] \<Rightarrow> None
      | c # r \<Rightarrow> if c = CHR ''<'' then
                   (case match_alt tag_names r of None \<Rightarrow> None
                    | Some r' \<Rightarrow> (case dropWhile not_gt r' of [] \<Rightarrow> None
                                   | g # rest \<Rightarrow> Some ('' '', rest)))
                 else None)"

definition close_tag_at :: matcher where
  \<comment> \<open>\<open></(if|choose|when|otherwise|foreach|where|set|trim)>\<close>, case-insensitive,
      replaced by one blank. No tag name is the start of another one, so at most one
      alternative matches and the first one that does decides.\<close>
  "close_tag_at s = (case s of [] \<Rightarrow> None
      | c # r \<Rightarrow> if c = CHR ''<'' then
                   (case r of [] \<Rightarrow> None
                    | d # r1 \<Rightarrow> if d = CHR ''/'' then
                        (case match_alt tag_names r1 of None \<Rightarrow> None
                         | Some r' \<Rightarrow> (case r' of [] \<Rightarrow> None
                                        | g # rest \<Rightarrow> if g = CHR ''>'' then Some ('' '', rest) else None))
                      else None)
                 else None)"

definition not_rbrace :: "char \<Rightarrow> bool" where
  "not_rbrace c = (c \<noteq> CHR ''}'')"

definition param_at :: "char \<Rightarrow> matcher" where
  \<comment> \<open>\<open>#\\{[^}]+\\}\<close> and \<open>\\$\\{[^}]+\\}\<close>, replaced by a question mark; the argument
      is the first character\<close>
  "param_at p s = (case s of [] \<Rightarrow> None
      | c # r \<Rightarrow> if c = p then
                   (case r of [] \<Rightarrow> None
                    | d # r1 \<Rightarrow> if d = CHR ''{'' \<and> takeWhile not_rbrace r1 \<noteq> [] then
                        (case dropWhile not_rbrace r1 of [] \<Rightarrow> None
                         | g # rest \<Rightarrow> Some (''?'', rest))
                      else None)
                 else None)"

definition spaces_at :: matcher where
  \<comment> \<open>\<open>\\s+\<close>, replaced by one blank\<close>
  "spaces_at s = (case s of [] \<Rightarrow> None
      | c # cs \<Rightarrow> if py_isspace c then Some ('' '', dropWhile py_isspace cs) else None)"

text \<open>\<open>_preprocess_sql\<close>, the same function in both engines.\<close>

definition preprocess_sql :: "string \<Rightarrow> string" where
  "preprocess_sql sql =
     (let sql = re_sub cdata_at sql;
          sql = re_sub open_tag_at sql;
          sql = re_sub close_tag_at sql;
          sql = re_sub (param_at CHR ''#'') sql;
          sql = re_sub (param_at CHR ''$'') sql;
          sql = strip (re_sub spaces_at sql)
      in sql)"

section \<open>The regular-expression library\<close>

text \<open>
  The rules' patterns come from the rule file, so the engine of \<open>re\<close> is a parameter of
  the model. A compiled pattern is what \<open>pattern.findall\<close> computes: a list of strings
  for a pattern with at most one group, a list of tuples of strings otherwise.
  \<open>compile_regex p\<close> is \<open>re.compile(p, re.IGNORECASE | re.DOTALL)\<close> and
  \<open>compile_keyword p\<close> is \<open>re.compile(r'\\b' + re.escape(p) + r'\\b', re.IGNORECASE)\<close>,
  both \<open>None\<close> where \<open>re.error\<close> is raised. \<open>str_tuple\<close> is \<open>str\<close> on a tuple of
  strings. The last four fields give group 1 of every match of the three table patterns
  of \<open>_calculate_metrics\<close> and of the \<open>FROM\<close> pattern applied inside a LATERAL group.
\<close>

datatype findall_result = Strs "string list" | Tuples "string list list"

type_synonym pattern = "string \<Rightarrow> findall_result"

record re_lib =
  compile_regex :: "string \<Rightarrow> pattern option"
  compile_keyword :: "string \<Rightarrow> pattern option"
  str_tuple :: "string list \<Rightarrow> string"
  from_groups :: "string \<Rightarrow> string list"
  join_groups :: "string \<Rightarrow> string list"
  lateral_groups :: "string \<Rightarrow> string list"
  inner_from_groups :: "string \<Rightarrow> string list"

definition count_pattern_matches :: "re_lib \<Rightarrow> string \<Rightarrow> pattern \<Rightarrow> nat \<times> string list" where
  \<comment> \<open>\<open>_count_pattern_matches\<close>, the same in both engines; \<open>findall\<close> gives no empty tuple\<close>
  "count_pattern_matches lib sql pat =
     (case pat sql of
        Strs matches \<Rightarrow>
          if matches \<noteq> [] then (length matches, take 5 matches) else (0, [])
      | Tuples matches \<Rightarrow>
          if matches \<noteq> [] then
            (length matches,
             take 5 (map (\<lambda>m. case m of [] \<Rightarrow> str_tuple lib m
                               | g # _ \<Rightarrow> if g \<noteq> [] then g else str_tuple lib m) matches))
          else (0, []))"

section \<open>Rule catalog of the structural engine\<close>

text \<open>
  A rule of the rule file is a mapping read with \<open>rule.get(key, default)\<close>: every field
  is optional. A section of the file holds a list of rules or something else.
\<close>

record rule =
  y_id :: "string option"
  y_name :: "string option"
  y_weight :: "int option"
  y_conversion_grade :: "string option"
  y_detection_method :: "string option"
  y_pattern :: "string option"
  y_logic :: "string option"
  y_applicable_db :: "string list option"
  y_group :: "string option"
  y_note :: "string option"

datatype 'a yaml = YList "'a list" | YOther

definition get_or :: "'a option \<Rightarrow> 'a \<Rightarrow> 'a" where
  "get_or v d = (case v of None \<Rightarrow> d | Some x \<Rightarrow> x)"

record rules_file =
  common_rules_section :: "(string \<times> rule yaml) list"
  dbms_specific_rules_section :: "(string \<times> rule yaml) list"

record compiled_rule =
  cr_id :: string
  cr_name :: string
  cr_weight :: int
  cr_detection_method :: string
  cr_pattern :: string
  cr_logic :: string
  cr_category :: string
  cr_subcategory :: string
  cr_note :: string
  compiled_pattern :: "pattern option"

definition DB_ALIASES :: "(string \<times> string list) list" where
  "DB_ALIASES =
     [(''ORA'', [''ORA'', ''ORACLE'']),
      (''MY'', [''MY'', ''MYSQL'']),
      (''MDB'', [''MDB'', ''MARIADB'']),
      (''PG'', [''PG'', ''POSTGRESQL'', ''POSTGRES'']),
      (''SS'', [''SS'', ''SQLSERVER'', ''MSSQL'']),
      (''ALT'', [''ALT'', ''ALTIBASE'']),
      (''DB2'', [''DB2'', ''IBM DB2''])]"

fun alias_loop :: "(string \<times> string list) list \<Rightarrow> string \<Rightarrow> string" where
  "alias_loop [] db_upper = db_upper"
| "alias_loop ((canonical, aliases) # rest) db_upper =
     (if db_upper \<in> set aliases then canonical else alias_loop rest db_upper)"

definition normalize_db_name :: "string \<Rightarrow> string" where
  "normalize_db_name db_name = alias_loop DB_ALIASES (upper db_name)"

definition map_category :: "string \<Rightarrow> string" where
  "map_category category_name =
     get_or (map_of
       [(''structural_join'', ''structural''),
        (''structural_subquery'', ''structural''),
        (''structural_cte'', ''structural''),
        (''structural_set_operation'', ''structural''),
        (''clause_select'', ''clause''),
        (''clause_where'', ''clause''),
        (''clause_group_order'', ''clause''),
        (''function_aggregate'', ''function_expression''),
        (''function_window'', ''function_expression''),
        (''function_case'', ''function_expression''),
        (''function_common'', ''function_expression''),
        (''query_metric'', ''query_metric'')] category_name) ''structural''"

definition compile_pattern :: "re_lib \<Rightarrow> string \<Rightarrow> string \<Rightarrow> pattern option" where
  \<comment> \<open>the \<open>if\<close>/\<open>elif\<close>/\<open>else\<close> on the detection method; an empty pattern is falsy\<close>
  "compile_pattern lib detection_method pat =
     (if detection_method = ''regex'' \<and> pat \<noteq> [] then compile_regex lib pat
      else if detection_method = ''keyword'' \<and> pat \<noteq> [] then compile_keyword lib pat
      else None)"

definition compile_rule :: "re_lib \<Rightarrow> rule \<Rightarrow> string \<Rightarrow> string \<Rightarrow> compiled_rule" where
  \<comment> \<open>\<open>_compile_rule\<close>; it always returns a mapping, which is truthy\<close>
  "compile_rule lib r category subcategory =
     \<lparr> cr_id = get_or (y_id r) [],
       cr_name = get_or (y_name r) [],
       cr_weight = get_or (y_weight r) 0,
       cr_detection_method = get_or (y_detection_method r) ''regex'',
       cr_pattern = get_or (y_pattern r) [],
       cr_logic = get_or (y_logic r) [],
       cr_category = category,
       cr_subcategory = subcategory,
       cr_note = get_or (y_note r) [],
       compiled_pattern =
         compile_pattern lib (get_or (y_detection_method r) ''regex'') (get_or (y_pattern r) []) \<rparr>"

fun rule_loop :: "re_lib \<Rightarrow> string \<Rightarrow> string \<Rightarrow> rule list \<Rightarrow> compiled_rule list \<Rightarrow> compiled_rule list" where
  \<comment> \<open>\<open>for rule in rules_list: compiled.append(...)\<close>\<close>
  "rule_loop lib category subcategory [] compiled = compiled"
| "rule_loop lib category subcategory (r # rs) compiled =
     rule_loop lib category subcategory rs (compiled @ [compile_rule lib r category subcategory])"

fun common_loop :: "re_lib \<Rightarrow> (string \<times> rule yaml) list \<Rightarrow> compiled_rule list \<Rightarrow> compiled_rule list" where
  "common_loop lib [] compiled = compiled"
| "common_loop lib ((category_name, YOther) # rest) compiled = common_loop lib rest compiled"
| "common_loop lib ((category_name, YList rules_list) # rest) compiled =
     common_loop lib rest
       (rule_loop lib (map_category category_name) category_name rules_list compiled)"

definition compile_common_rules :: "re_lib \<Rightarrow> rules_file \<Rightarrow> compiled_rule list" where
  "compile_common_rules lib rules_loaded = common_loop lib (common_rules_section rules_loaded) []"

fun dbms_loop :: "re_lib \<Rightarrow> (string \<times> rule yaml) list \<Rightarrow> string list \<Rightarrow> compiled_rule list \<Rightarrow> compiled_rule list" where
  \<comment> \<open>\<open>for db_key in db_keys\<close>, left by \<open>break\<close> at the first key the section has\<close>
  "dbms_loop lib dbms_rules_dict [] compiled = compiled"
| "dbms_loop lib dbms_rules_dict (db_key # db_keys) compiled =
     (case map_of dbms_rules_dict db_key of
        None \<Rightarrow> dbms_loop lib dbms_rules_dict db_keys compiled
      | Some YOther \<Rightarrow> compiled
      | Some (YList rules_list) \<Rightarrow> rule_loop lib ''dbms_specific'' db_key rules_list compiled)"

definition compile_dbms_rules :: "re_lib \<Rightarrow> rules_file \<Rightarrow> string \<Rightarrow> compiled_rule list" where
  "compile_dbms_rules lib rules_loaded db =
     dbms_loop lib (dbms_specific_rules_section rules_loaded) [db, lower db, upper db] []"

record engine =
  source_db :: string
  rules :: rules_file
  common_rules :: "compiled_rule list"
  dbms_rules :: "compiled_rule list"
  rule_match_counts :: "(string \<times> int) list"

definition init_engine :: "re_lib \<Rightarrow> rules_file \<Rightarrow> string \<Rightarrow> engine" where
  \<comment> \<open>\<open>__init__\<close>, the rule file being read already\<close>
  "init_engine lib rules_loaded db =
     \<lparr> source_db = normalize_db_name db,
       rules = rules_loaded,
       common_rules = compile_common_rules lib rules_loaded,
       dbms_rules = compile_dbms_rules lib rules_loaded (normalize_db_name db),
       rule_match_counts = [] \<rparr>"

definition section_rules :: "re_lib \<Rightarrow> string \<Rightarrow> rule yaml \<Rightarrow> compiled_rule list" where
  \<comment> \<open>the rules compiled from one section of \<open>dbms_specific_rules\<close> found under \<open>db_key\<close>\<close>
  "section_rules lib db_key sec =
     (case sec of YList rules_list \<Rightarrow> map (\<lambda>r. compile_rule lib r ''dbms_specific'' db_key) rules_list
      | YOther \<Rightarrow> [])"

section \<open>Metrics of the structural engine\<close>

fun join_scan :: "char option \<Rightarrow> string \<Rightarrow> nat" where
  \<comment> \<open>\<open>len(re.findall(r'\\bJOIN\\b', sql, re.IGNORECASE))\<close>: the places where the word
      stands between word boundaries, \<open>prev\<close> being the character before the text; two
      such places never overlap\<close>
  "join_scan prev [] = 0"
| "join_scan prev (c # cs) =
     (if (case prev of None \<Rightarrow> True | Some p \<Rightarrow> \<not> re_word p)
         \<and> (case match_ci ''JOIN'' (c # cs) of None \<Rightarrow> False
            | Some r \<Rightarrow> (case r of [] \<Rightarrow> True | d # _ \<Rightarrow> \<not> re_word d))
      then 1 else 0) + join_scan (Some c) cs"

definition sql_keywords :: "string list" where
  "sql_keywords =
     [''LATERAL'', ''NATURAL'', ''OUTER'', ''INNER'', ''LEFT'', ''RIGHT'', ''FULL'', ''CROSS'',
      ''SELECT'', ''WHERE'', ''AND'', ''OR'', ''ON'', ''AS'', ''SET'', ''VALUES'', ''INTO'']"

definition last_segment :: "string \<Rightarrow> string" where
  \<comment> \<open>\<open>table_name.split('.')[-1]\<close> when the name has a dot\<close>
  "last_segment table_name =
     (if CHR ''.'' \<in> set table_name then rev (takeWhile (\<lambda>c. c \<noteq> CHR ''.'') (rev table_name))
      else table_name)"

definition add_table :: "string \<Rightarrow> string list \<Rightarrow> string list" where
  \<comment> \<open>\<open>tables.add(table_name.upper())\<close> for a name that is no keyword; the set is a list
      without duplicates\<close>
  "add_table table_name tables =
     (let t = upper (last_segment table_name)
      in if t \<in> set sql_keywords then tables
         else if t \<in> set tables then tables else tables @ [t])"

fun split_on :: "char \<Rightarrow> string \<Rightarrow> string list" where
  \<comment> \<open>\<open>s.split(sep)\<close>\<close>
  "split_on sep [] = [[]]"
| "split_on sep (c # cs) =
     (if c = sep then [] # split_on sep cs
      else (case split_on sep cs of [] \<Rightarrow> [[c]] | x # xs \<Rightarrow> (c # x) # xs))"

definition first_token :: "string \<Rightarrow> string" where
  \<comment> \<open>\<open>part.split()[0]\<close> for a stripped part that is not empty\<close>
  "first_token part = takeWhile (\<lambda>c. \<not> py_isspace c) (dropWhile py_isspace part)"

definition table_count :: "re_lib \<Rightarrow> string \<Rightarrow> nat" where
  "table_count lib sql =
     (let tables = foldl (\<lambda>tables from_clause.
                      foldl (\<lambda>tables part.
                               if strip part \<noteq> [] then add_table (first_token (strip part)) tables
                               else tables)
                            tables (split_on CHR '','' from_clause))
                    [] (from_groups lib sql);
          tables = foldl (\<lambda>tables table_name. add_table table_name tables)
                     tables (join_groups lib sql);
          tables = foldl (\<lambda>tables inner_sql.
                      foldl (\<lambda>tables table_name. add_table table_name tables)
                            tables (inner_from_groups lib inner_sql))
                    tables (lateral_groups lib sql)
      in length tables)"

record metrics =
  m_length :: int
  m_join_count :: int
  m_subquery_depth :: int
  m_table_count :: int
  m_select_column_count :: int
  m_where_condition_count :: int

definition calculate_metrics :: "re_lib \<Rightarrow> string \<Rightarrow> metrics" where
  "calculate_metrics lib sql =
     \<lparr> m_length = int (length sql),
       m_join_count = int (join_scan None sql),
       m_subquery_depth = subquery_depth sql,
       m_table_count = int (table_count lib sql),
       m_select_column_count = select_column_count sql,
       m_where_condition_count = where_condition_count sql \<rparr>"

section \<open>Scoring of the structural engine\<close>

text \<open>
  The names of the synthetic metric rules and the labels of the complexity levels are
  Korean texts in the source; the names are given here in English and the labels are the
  constructors of a datatype, in the order of \<open>COMPLEXITY_LEVELS\<close>.
\<close>

record RuleMatch =
  rm_rule_id :: string
  rm_rule_name :: string
  rm_weight :: int
  rm_category :: string
  rm_subcategory :: string
  rm_match_count :: int
  rm_matched_patterns :: "string list"

definition RuleMatch5 :: "string \<Rightarrow> string \<Rightarrow> int \<Rightarrow> string \<Rightarrow> string \<Rightarrow> RuleMatch" where
  \<comment> \<open>the constructor with its defaults \<open>match_count = 1\<close> and no matched patterns\<close>
  "RuleMatch5 rid rname w cat sub =
     \<lparr> rm_rule_id = rid, rm_rule_name = rname, rm_weight = w, rm_category = cat,
       rm_subcategory = sub, rm_match_count = 1, rm_matched_patterns = [] \<rparr>"

definition apply_metric_rules :: "metrics \<Rightarrow> RuleMatch list" where
  "apply_metric_rules ms =
     (let len = m_length ms; join_count = m_join_count ms; depth = m_subquery_depth ms;
          tables = m_table_count ms; col_count = m_select_column_count ms;
          cond_count = m_where_condition_count ms
      in
        [if len < 200 then RuleMatch5 ''c_len_short'' ''short query'' 0 ''query_metric'' ''length''
         else if len < 500 then RuleMatch5 ''c_len_medium'' ''medium query'' 5 ''query_metric'' ''length''
         else if len < 1000 then RuleMatch5 ''c_len_long'' ''long query'' 10 ''query_metric'' ''length''
         else if len < 2000 then RuleMatch5 ''c_len_very_long'' ''very long query'' 15 ''query_metric'' ''length''
         else RuleMatch5 ''c_len_huge'' ''huge query'' 20 ''query_metric'' ''length'']
        @
        [if join_count = 0 then RuleMatch5 ''c_join_0'' ''no JOIN'' 0 ''structural'' ''join''
         else if join_count = 1 then RuleMatch5 ''c_join_1'' ''1 JOIN'' 5 ''structural'' ''join''
         else if join_count \<le> 3 then RuleMatch5 ''c_join_2_3'' ''2-3 JOINs'' 10 ''structural'' ''join''
         else if join_count \<le> 5 then RuleMatch5 ''c_join_4_5'' ''4-5 JOINs'' 15 ''structural'' ''join''
         else RuleMatch5 ''c_join_6plus'' ''6 or more JOINs'' 20 ''structural'' ''join'']
        @
        [if depth = 0 then RuleMatch5 ''c_subq_0'' ''no subquery'' 0 ''structural'' ''subquery''
         else if depth = 1 then RuleMatch5 ''c_subq_depth_1'' ''subquery depth 1'' 10 ''structural'' ''subquery''
         else if depth = 2 then RuleMatch5 ''c_subq_depth_2'' ''subquery depth 2'' 20 ''structural'' ''subquery''
         else RuleMatch5 ''c_subq_depth_3plus'' ''subquery depth 3+'' 30 ''structural'' ''subquery'']
        @
        (if 3 \<le> tables \<and> tables \<le> 5 then [RuleMatch5 ''c_tables_3_5'' ''3-5 tables'' 5 ''query_metric'' ''tables'']
         else if 6 \<le> tables \<and> tables \<le> 10 then [RuleMatch5 ''c_tables_6_10'' ''6-10 tables'' 10 ''query_metric'' ''tables'']
         else if tables \<ge> 11 then [RuleMatch5 ''c_tables_11plus'' ''11 or more tables'' 15 ''query_metric'' ''tables'']
         else [])
        @
        (if col_count = -1 then [RuleMatch5 ''c_select_star'' ''SELECT *'' 5 ''clause'' ''select'']
         else if 6 \<le> col_count \<and> col_count \<le> 10 then [RuleMatch5 ''c_select_cols_6_10'' ''6-10 columns'' 5 ''clause'' ''select'']
         else if 11 \<le> col_count \<and> col_count \<le> 20 then [RuleMatch5 ''c_select_cols_11_20'' ''11-20 columns'' 10 ''clause'' ''select'']
         else if col_count \<ge> 21 then [RuleMatch5 ''c_select_cols_21plus'' ''21 or more columns'' 15 ''clause'' ''select'']
         else [])
        @
        (if 4 \<le> cond_count \<and> cond_count \<le> 6 then [RuleMatch5 ''c_where_cond_4_6'' ''4-6 conditions'' 5 ''clause'' ''where'']
         else if 7 \<le> cond_count \<and> cond_count \<le> 10 then [RuleMatch5 ''c_where_cond_7_10'' ''7-10 conditions'' 10 ''clause'' ''where'']
         else if cond_count \<ge> 11 then [RuleMatch5 ''c_where_cond_11plus'' ''11 or more conditions'' 15 ''clause'' ''where'']
         else []))"

fun counts_add :: "'k \<Rightarrow> int \<Rightarrow> ('k \<times> int) list \<Rightarrow> ('k \<times> int) list" where
  \<comment> \<open>\<open>d[k] += n\<close> on a \<open>defaultdict(int)\<close>, the keys in the order of their insertion\<close>
  "counts_add k n [] = [(k, n)]"
| "counts_add k n ((k', v) # rest) =
     (if k = k' then (k', v + n) # rest else (k', v) # counts_add k n rest)"

definition rule_match :: "compiled_rule \<Rightarrow> nat \<Rightarrow> string list \<Rightarrow> RuleMatch" where
  "rule_match r cnt pats =
     \<lparr> rm_rule_id = cr_id r, rm_rule_name = cr_name r, rm_weight = cr_weight r,
       rm_category = cr_category r, rm_subcategory = cr_subcategory r,
       rm_match_count = int cnt, rm_matched_patterns = pats \<rparr>"

fun match_loop :: "re_lib \<Rightarrow> string \<Rightarrow> compiled_rule list \<Rightarrow> RuleMatch list \<times> (string \<times> int) list
                    \<Rightarrow> RuleMatch list \<times> (string \<times> int) list" where
  \<comment> \<open>\<open>for rule in self.common_rules\<close> and \<open>for rule in self.dbms_rules\<close>, on the matched
      rules and the engine's counters\<close>
  "match_loop lib sql [] st = st"
| "match_loop lib sql (r # rest) (matched, counts) =
     (case compiled_pattern r of
        None \<Rightarrow> match_loop lib sql rest (matched, counts)
      | Some pat \<Rightarrow>
          (let (cnt, pats) = count_pattern_matches lib sql pat
           in if cnt > 0
              then match_loop lib sql rest
                     (matched @ [rule_match r cnt pats], counts_add (cr_id r) (int cnt) counts)
              else match_loop lib sql rest (matched, counts)))"

fun category_loop :: "RuleMatch list \<Rightarrow> (string \<rightharpoonup> real) \<Rightarrow> (string \<rightharpoonup> real)" where
  \<comment> \<open>\<open>category_scores[category] += score\<close> on a \<open>defaultdict(float)\<close>\<close>
  "category_loop [] category_scores = category_scores"
| "category_loop (m # rest) category_scores =
     category_loop rest
       (category_scores(rm_category m \<mapsto>
          get_or (category_scores (rm_category m)) 0 + real_of_int (rm_weight m * rm_match_count m)))"

definition CATEGORY_WEIGHTS :: "(string \<times> real) list" where
  "CATEGORY_WEIGHTS =
     [(''structural'', 30 / 100), (''clause'', 15 / 100), (''function_expression'', 20 / 100),
      (''query_metric'', 10 / 100), (''dbms_specific'', 25 / 100)]"

definition CATEGORY_MAX_SCORES :: "(string \<times> real) list" where
  "CATEGORY_MAX_SCORES =
     [(''structural'', 100), (''clause'', 50), (''function_expression'', 80),
      (''query_metric'', 40), (''dbms_specific'', 100)]"

text \<open>
  Python's floats are modelled as real numbers. The divisors of
  \<open>_calculate_normalized_score\<close> are the constants of \<open>CATEGORY_MAX_SCORES\<close>, none of them 0.
\<close>

fun normalized_loop :: "(string \<times> real) list \<Rightarrow> (string \<rightharpoonup> real) \<Rightarrow> real \<Rightarrow> real" where
  "normalized_loop [] category_scores weighted_sum = weighted_sum"
| "normalized_loop ((cat, w) # rest) category_scores weighted_sum =
     (let raw_score = get_or (category_scores cat) 0;
          max_score = get_or (map_of CATEGORY_MAX_SCORES cat) 100;
          normalized = min (raw_score / max_score * 10) 10
      in normalized_loop rest category_scores (weighted_sum + normalized * w))"

definition calculate_normalized_score :: "(string \<rightharpoonup> real) \<Rightarrow> real" where
  "calculate_normalized_score category_scores = normalized_loop CATEGORY_WEIGHTS category_scores 0"

datatype bound = Fin real | Infinity

fun below :: "real \<Rightarrow> bound \<Rightarrow> bool" where
  \<comment> \<open>\<open>score < max\<close>, where \<open>max\<close> may be \<open>float('inf')\<close>\<close>
  "below x (Fin y) = (x < y)"
| "below x Infinity = True"

record 'l band =
  band_level :: 'l
  band_min :: real
  band_max :: bound

fun level_loop :: "'l band list \<Rightarrow> real \<Rightarrow> 'l \<Rightarrow> 'l" where
  \<comment> \<open>\<open>for level in self.COMPLEXITY_LEVELS\<close>, then the \<open>return\<close> behind the loop\<close>
  "level_loop [] score fall_through = fall_through"
| "level_loop (b # bs) score fall_through =
     (if band_min b \<le> score \<and> below score (band_max b) then band_level b
      else level_loop bs score fall_through)"

datatype level = L_very_simple | L_simple | L_normal | L_complex | L_very_complex

definition COMPLEXITY_LEVELS :: "level band list" where
  "COMPLEXITY_LEVELS =
     [\<lparr>band_level = L_very_simple, band_min = 0, band_max = Fin 2\<rparr>,
      \<lparr>band_level = L_simple, band_min = 2, band_max = Fin 4\<rparr>,
      \<lparr>band_level = L_normal, band_min = 4, band_max = Fin 6\<rparr>,
      \<lparr>band_level = L_complex, band_min = 6, band_max = Fin 8\<rparr>,
      \<lparr>band_level = L_very_complex, band_min = 8, band_max = Fin 10\<rparr>]"

definition get_complexity_level :: "real \<Rightarrow> level" where
  "get_complexity_level score = level_loop COMPLEXITY_LEVELS score L_very_complex"

definition py_round2 :: "real \<Rightarrow> real" where
  \<comment> \<open>\<open>round(x, 2)\<close>: to the nearest hundredth, a tie to the even one\<close>
  "py_round2 x =
     (let y = x * 100; f = \<lfloor>y\<rfloor>; d = y - of_int f
      in of_int (if d < 1 / 2 then f else if d > 1 / 2 then f + 1
                 else if even f then f else f + 1) / 100)"

definition truncate_sql :: "string \<Rightarrow> string" where
  \<comment> \<open>\<open>sql[:500] + '...' if len(sql) > 500 else sql\<close>\<close>
  "truncate_sql sql = (if length sql > 500 then take 500 sql @ ''...'' else sql)"

record QueryScore =
  qs_query_name :: string
  qs_sql :: string
  qs_raw_score :: int
  qs_normalized_score :: real
  qs_complexity_level :: level
  qs_matched_rules :: "RuleMatch list"
  qs_category_scores :: "string \<rightharpoonup> real"
  qs_metrics :: metrics

definition score_query :: "re_lib \<Rightarrow> engine \<Rightarrow> string \<Rightarrow> string \<Rightarrow> QueryScore \<times> engine" where
  \<comment> \<open>the engine comes back with its \<open>rule_match_counts\<close> updated\<close>
  "score_query lib eng sql query_name =
     (let preprocessed_sql = preprocess_sql sql;
          ms = calculate_metrics lib preprocessed_sql;
          metric_rules = apply_metric_rules ms;
          st = match_loop lib preprocessed_sql (common_rules eng) (metric_rules, rule_match_counts eng);
          st = match_loop lib preprocessed_sql (dbms_rules eng) st;
          matched_rules = fst st;
          category_scores = category_loop matched_rules Map.empty;
          raw_score = sum_list (map (\<lambda>r. rm_weight r * rm_match_count r) matched_rules);
          normalized_score = calculate_normalized_score category_scores;
          complexity_level = get_complexity_level normalized_score
      in (\<lparr> qs_query_name = query_name,
             qs_sql = truncate_sql sql,
             qs_raw_score = raw_score,
             qs_normalized_score = py_round2 normalized_score,
             qs_complexity_level = complexity_level,
             qs_matched_rules = matched_rules,
             qs_category_scores = category_scores,
             qs_metrics = ms \<rparr>,
          eng\<lparr> rule_match_counts := snd st \<rparr>))"

section \<open>File and corpus analysis of the structural engine\<close>

text \<open>
  A division raises \<open>ZeroDivisionError\<close> on a zero divisor; the analysis functions
  return the error or their result. A query and a file of the corpus are mappings read
  with \<open>get\<close>; the corpus is the list of the \<open>files\<close> lists of the JSON documents, read
  already. The time stamp and the paths of the metadata are left out.
\<close>

datatype py_error = ZeroDivisionError

definition truediv :: "real \<Rightarrow> real \<Rightarrow> py_error + real" where
  "truediv a b = (if b = 0 then Inl ZeroDivisionError else Inr (a / b))"

fun err_bind :: "'e + 'a \<Rightarrow> ('a \<Rightarrow> 'e + 'b) \<Rightarrow> 'e + 'b" where
  "err_bind (Inl e) f = Inl e"
| "err_bind (Inr x) f = f x"

record query =
  q_name :: "string option"
  q_type :: "string option"
  q_sql :: "string option"

record file_data =
  fd_file_name :: "string option"
  fd_file_path :: "string option"
  fd_queries :: "query list"

definition scoreable :: "query \<Rightarrow> bool" where
  \<comment> \<open>the negation of \<open>not sql\<close> for \<open>sql = query.get('sql', '')\<close>\<close>
  "scoreable q = (get_or (q_sql q) [] \<noteq> [])"

record FileScore =
  fs_file_name :: string
  fs_file_path :: string
  fs_query_count :: int
  fs_total_raw_score :: real
  fs_avg_score :: real
  fs_avg_normalized_score :: real
  fs_complexity_distribution :: "(level \<times> int) list"
  fs_queries :: "QueryScore list"

fun query_loop :: "re_lib \<Rightarrow> query list \<Rightarrow> engine \<times> QueryScore list \<times> (level \<times> int) list
                    \<Rightarrow> engine \<times> QueryScore list \<times> (level \<times> int) list" where
  "query_loop lib [] st = st"
| "query_loop lib (q # rest) (eng, query_scores, complexity_dist) =
     (let query_name = get_or (q_name q) (get_or (q_type q) ''unknown'');
          sql = get_or (q_sql q) []
      in if sql = [] then query_loop lib rest (eng, query_scores, complexity_dist)
         else
           (let (score, eng') = score_query lib eng sql query_name
            in query_loop lib rest
                 (eng', query_scores @ [score],
                  counts_add (qs_complexity_level score) 1 complexity_dist)))"

definition analyze_file :: "re_lib \<Rightarrow> engine \<Rightarrow> file_data \<Rightarrow> py_error + (FileScore \<times> engine)" where
  "analyze_file lib eng fd =
     (let (eng', query_scores, complexity_dist) = query_loop lib (fd_queries fd) (eng, [], []);
          total_raw = real_of_int (sum_list (map qs_raw_score query_scores))
      in err_bind (if query_scores \<noteq> [] then truediv total_raw (real (length query_scores))
                   else Inr 0)
           (\<lambda>avg_score.
              err_bind (if query_scores \<noteq> []
                        then truediv (sum_list (map qs_normalized_score query_scores))
                               (real (length query_scores))
                        else Inr 0)
                (\<lambda>avg_normalized.
                   Inr (\<lparr> fs_file_name = get_or (fd_file_name fd) [],
                          fs_file_path = get_or (fd_file_path fd) [],
                          fs_query_count = int (length query_scores),
                          fs_total_raw_score = py_round2 total_raw,
                          fs_avg_score = py_round2 avg_score,
                          fs_avg_normalized_score = py_round2 avg_normalized,
                          fs_complexity_distribution = complexity_dist,
                          fs_queries = query_scores \<rparr>,
                        eng'))))"

record totals =
  t_all_files :: "FileScore list"
  t_total_queries :: int
  t_total_score :: real
  t_total_normalized :: real
  t_overall_complexity_dist :: "(level \<times> int) list"

fun dist_loop :: "('k \<times> int) list \<Rightarrow> ('k \<times> int) list \<Rightarrow> ('k \<times> int) list" where
  \<comment> \<open>\<open>for level, count in ....items(): overall[level] += count\<close>\<close>
  "dist_loop [] overall = overall"
| "dist_loop ((lv, cnt) # rest) overall = dist_loop rest (counts_add lv cnt overall)"

fun file_loop :: "re_lib \<Rightarrow> file_data list \<Rightarrow> engine \<times> totals \<Rightarrow> py_error + (engine \<times> totals)" where
  "file_loop lib [] st = Inr st"
| "file_loop lib (fd # rest) (eng, t) =
     err_bind (analyze_file lib eng fd)
       (\<lambda>(file_score, eng').
          file_loop lib rest
            (eng',
             \<lparr> t_all_files = t_all_files t @ [file_score],
               t_total_queries = t_total_queries t + fs_query_count file_score,
               t_total_score = t_total_score t + fs_total_raw_score file_score,
               t_total_normalized = t_total_normalized t
                 + fs_avg_normalized_score file_score * real_of_int (fs_query_count file_score),
               t_overall_complexity_dist =
                 dist_loop (fs_complexity_distribution file_score) (t_overall_complexity_dist t) \<rparr>))"

record metadata =
  md_source_db :: string
  md_total_files_analyzed :: int
  md_total_queries_analyzed :: int

record summary =
  sm_total_queries :: int
  sm_total_raw_score :: real
  sm_average_raw_score :: real
  sm_average_normalized_score :: real
  sm_overall_complexity_level :: level
  sm_complexity_distribution :: "(level \<times> int) list"

record AnalysisResult =
  ar_metadata :: metadata
  ar_summary :: summary
  ar_files :: "FileScore list"
  ar_rule_statistics :: "(string \<times> int) list"

definition top_rules :: "(string \<times> int) list \<Rightarrow> (string \<times> int) list" where
  \<comment> \<open>\<open>sorted(counts.items(), key=lambda x: x[1], reverse=True)[:20]\<close>\<close>
  "top_rules counts = take 20 (sort_key (\<lambda>(k, v). - v) counts)"

definition analyze_json_files :: "re_lib \<Rightarrow> engine \<Rightarrow> file_data list list
                                    \<Rightarrow> py_error + (AnalysisResult \<times> engine)" where
  "analyze_json_files lib eng corpus =
     err_bind (file_loop lib (concat corpus)
                 (eng, \<lparr> t_all_files = [], t_total_queries = 0, t_total_score = 0,
                         t_total_normalized = 0, t_overall_complexity_dist = [] \<rparr>))
       (\<lambda>(eng', t).
          err_bind (if t_total_queries t > 0
                    then truediv (t_total_score t) (real_of_int (t_total_queries t)) else Inr 0)
            (\<lambda>avg_score.
               err_bind (if t_total_queries t > 0
                         then truediv (t_total_normalized t) (real_of_int (t_total_queries t))
                         else Inr 0)
                 (\<lambda>avg_normalized.
                    Inr (\<lparr> ar_metadata =
                             \<lparr> md_source_db = source_db eng',
                               md_total_files_analyzed = int (length (t_all_files t)),
                               md_total_queries_analyzed = t_total_queries t \<rparr>,
                           ar_summary =
                             \<lparr> sm_total_queries = t_total_queries t,
                               sm_total_raw_score = py_round2 (t_total_score t),
                               sm_average_raw_score = py_round2 avg_score,
                               sm_average_normalized_score = py_round2 avg_normalized,
                               sm_overall_complexity_level = get_complexity_level avg_normalized,
                               sm_complexity_distribution = t_overall_complexity_dist t \<rparr>,
                           ar_files = t_all_files t,
                           ar_rule_statistics = top_rules (rule_match_counts eng') \<rparr>,
                         eng'))))"

section \<open>The conversion engine\<close>

text \<open>
  The conversion engine has its own rule file layout, a conversion grade on every rule and
  a weighted score in place of the normalised one. \<open>_preprocess_sql\<close>,
  \<open>_count_pattern_matches\<close> and \<open>_normalize_db_name\<close> are those above.
\<close>

datatype 'a ydict = YDict "(string \<times> 'a) list" | YNotDict

type_synonym cv_rules_file = "(string \<times> rule yaml ydict) list"

record cv_compiled_rule =
  cvr_id :: string
  cvr_name :: string
  cvr_weight :: int
  cvr_conversion_grade :: string
  cvr_detection_method :: string
  cvr_pattern :: string
  cvr_logic :: string
  cvr_category :: string
  cvr_subcategory :: string
  cvr_group :: string
  cvr_note :: string
  cvr_compiled_pattern :: "pattern option"

definition is_applicable_rule :: "string \<Rightarrow> rule \<Rightarrow> bool" where
  "is_applicable_rule db r =
     (let applicable_db = get_or (y_applicable_db r) []
      in if applicable_db = [] then False
         else if ''ALL'' \<in> set applicable_db then True
         else db \<in> set applicable_db)"

definition cv_compile_rule :: "re_lib \<Rightarrow> rule \<Rightarrow> string \<Rightarrow> string \<Rightarrow> cv_compiled_rule" where
  "cv_compile_rule lib r category_name subcategory_name =
     \<lparr> cvr_id = get_or (y_id r) [],
       cvr_name = get_or (y_name r) [],
       cvr_weight = get_or (y_weight r) 0,
       cvr_conversion_grade = get_or (y_conversion_grade r) ''P'',
       cvr_detection_method = get_or (y_detection_method r) ''regex'',
       cvr_pattern = get_or (y_pattern r) [],
       cvr_logic = get_or (y_logic r) [],
       cvr_category = category_name,
       cvr_subcategory = subcategory_name,
       cvr_group = get_or (y_group r) [],
       cvr_note = get_or (y_note r) [],
       cvr_compiled_pattern =
         compile_pattern lib (get_or (y_detection_method r) ''regex'') (get_or (y_pattern r) []) \<rparr>"

fun cv_rule_loop :: "re_lib \<Rightarrow> string \<Rightarrow> string \<Rightarrow> string \<Rightarrow> rule list \<Rightarrow> cv_compiled_rule list
                       \<Rightarrow> cv_compiled_rule list" where
  "cv_rule_loop lib db category_name subcategory_name [] compiled = compiled"
| "cv_rule_loop lib db category_name subcategory_name (r # rs) compiled =
     (if \<not> is_applicable_rule db r
      then cv_rule_loop lib db category_name subcategory_name rs compiled
      else cv_rule_loop lib db category_name subcategory_name rs
             (compiled @ [cv_compile_rule lib r category_name subcategory_name]))"

fun cv_subcategory_loop :: "re_lib \<Rightarrow> string \<Rightarrow> string \<Rightarrow> (string \<times> rule yaml) list
                              \<Rightarrow> cv_compiled_rule list \<Rightarrow> cv_compiled_rule list" where
  "cv_subcategory_loop lib db category_name [] compiled = compiled"
| "cv_subcategory_loop lib db category_name ((subcategory_name, YOther) # rest) compiled =
     cv_subcategory_loop lib db category_name rest compiled"
| "cv_subcategory_loop lib db category_name ((subcategory_name, YList rules_list) # rest) compiled =
     cv_subcategory_loop lib db category_name rest
       (cv_rule_loop lib db category_name subcategory_name rules_list compiled)"

fun cv_category_loop :: "re_lib \<Rightarrow> string \<Rightarrow> cv_rules_file \<Rightarrow> cv_compiled_rule list
                           \<Rightarrow> cv_compiled_rule list" where
  "cv_category_loop lib db [] compiled = compiled"
| "cv_category_loop lib db ((category_name, YNotDict) # rest) compiled =
     cv_category_loop lib db rest compiled"
| "cv_category_loop lib db ((category_name, YDict category_data) # rest) compiled =
     cv_category_loop lib db rest (cv_subcategory_loop lib db category_name category_data compiled)"

definition compile_patterns :: "re_lib \<Rightarrow> cv_rules_file \<Rightarrow> string \<Rightarrow> cv_compiled_rule list" where
  "compile_patterns lib rules_section db = cv_category_loop lib db rules_section []"

record cv_engine =
  cv_source_db :: string
  cv_rules :: cv_rules_file
  compiled_patterns :: "cv_compiled_rule list"
  cv_rule_match_counts :: "(string \<times> int) list"

definition cv_init_engine :: "re_lib \<Rightarrow> cv_rules_file \<Rightarrow> string \<Rightarrow> cv_engine" where
  "cv_init_engine lib rules_loaded db =
     \<lparr> cv_source_db = normalize_db_name db,
       cv_rules = rules_loaded,
       compiled_patterns = compile_patterns lib rules_loaded (normalize_db_name db),
       cv_rule_match_counts = [] \<rparr>"

record cv_RuleMatch =
  cm_rule_id :: string
  cm_rule_name :: string
  cm_weight :: int
  cm_conversion_grade :: string
  cm_category :: string
  cm_subcategory :: string
  cm_match_count :: int
  cm_matched_patterns :: "string list"

definition cv_rule_match :: "cv_compiled_rule \<Rightarrow> nat \<Rightarrow> string list \<Rightarrow> cv_RuleMatch" where
  "cv_rule_match r cnt pats =
     \<lparr> cm_rule_id = cvr_id r, cm_rule_name = cvr_name r, cm_weight = cvr_weight r,
       cm_conversion_grade = cvr_conversion_grade r,
       cm_category = cvr_category r, cm_subcategory = cvr_subcategory r,
       cm_match_count = int cnt, cm_matched_patterns = pats \<rparr>"

definition grade_add :: "string \<Rightarrow> int \<Rightarrow> (string \<times> int) list \<Rightarrow> (string \<times> int) list" where
  \<comment> \<open>\<open>if grade in grade_summary: grade_summary[grade] += match_count\<close>\<close>
  "grade_add grade n grade_summary =
     (if map_of grade_summary grade \<noteq> None then counts_add grade n grade_summary
      else grade_summary)"

record cv_state =
  st_matched_rules :: "cv_RuleMatch list"
  st_grade_summary :: "(string \<times> int) list"
  st_counts :: "(string \<times> int) list"

fun cv_match_loop :: "re_lib \<Rightarrow> string \<Rightarrow> cv_compiled_rule list \<Rightarrow> cv_state \<Rightarrow> cv_state" where
  "cv_match_loop lib sql [] st = st"
| "cv_match_loop lib sql (r # rest) st =
     (case cvr_compiled_pattern r of
        None \<Rightarrow> cv_match_loop lib sql rest st
      | Some pat \<Rightarrow>
          (let (cnt, pats) = count_pattern_matches lib sql pat
           in if cnt > 0
              then cv_match_loop lib sql rest
                     \<lparr> st_matched_rules = st_matched_rules st @ [cv_rule_match r cnt pats],
                       st_grade_summary =
                         grade_add (cvr_conversion_grade r) (int cnt) (st_grade_summary st),
                       st_counts = counts_add (cvr_id r) (int cnt) (st_counts st) \<rparr>
              else cv_match_loop lib sql rest st))"

definition GRADE_COEFFICIENTS :: "(string \<times> real) list" where
  "GRADE_COEFFICIENTS = [(''A'', 1 / 2), (''P'', 1), (''M'', 3 / 2)]"

datatype cv_level = L_very_low | L_low | L_medium | L_high | L_very_high

definition CV_COMPLEXITY_LEVELS :: "cv_level band list" where
  "CV_COMPLEXITY_LEVELS =
     [\<lparr>band_level = L_very_low, band_min = 0, band_max = Fin 10\<rparr>,
      \<lparr>band_level = L_low, band_min = 10, band_max = Fin 30\<rparr>,
      \<lparr>band_level = L_medium, band_min = 30, band_max = Fin 60\<rparr>,
      \<lparr>band_level = L_high, band_min = 60, band_max = Fin 100\<rparr>,
      \<lparr>band_level = L_very_high, band_min = 100, band_max = Infinity\<rparr>]"

definition cv_get_complexity_level :: "real \<Rightarrow> cv_level" where
  "cv_get_complexity_level score = level_loop CV_COMPLEXITY_LEVELS score L_very_high"

record cv_QueryScore =
  cq_query_name :: string
  cq_sql :: string
  cq_raw_score :: int
  cq_weighted_score :: real
  cq_complexity_level :: cv_level
  cq_matched_rules :: "cv_RuleMatch list"
  cq_grade_summary :: "(string \<times> int) list"

definition cv_score_query :: "re_lib \<Rightarrow> cv_engine \<Rightarrow> string \<Rightarrow> string \<Rightarrow> cv_QueryScore \<times> cv_engine" where
  "cv_score_query lib eng sql query_name =
     (let preprocessed_sql = preprocess_sql sql;
          st = cv_match_loop lib preprocessed_sql (compiled_patterns eng)
                 \<lparr> st_matched_rules = [],
                   st_grade_summary = [(''A'', 0), (''P'', 0), (''M'', 0)],
                   st_counts = cv_rule_match_counts eng \<rparr>;
          matched_rules = st_matched_rules st;
          raw_score = sum_list (map (\<lambda>r. cm_weight r * cm_match_count r) matched_rules);
          weighted_score =
            sum_list (map (\<lambda>r. real_of_int (cm_weight r * cm_match_count r)
                                * get_or (map_of GRADE_COEFFICIENTS (cm_conversion_grade r)) 1)
                          matched_rules);
          complexity_level = cv_get_complexity_level weighted_score
      in (\<lparr> cq_query_name = query_name,
             cq_sql = truncate_sql sql,
             cq_raw_score = raw_score,
             cq_weighted_score = py_round2 weighted_score,
             cq_complexity_level = complexity_level,
             cq_matched_rules = matched_rules,
             cq_grade_summary = st_grade_summary st \<rparr>,
          eng\<lparr> cv_rule_match_counts := st_counts st \<rparr>))"

record cv_FileScore =
  cf_file_name :: string
  cf_file_path :: string
  cf_query_count :: int
  cf_total_raw_score :: real
  cf_total_weighted_score :: real
  cf_avg_score :: real
  cf_complexity_distribution :: "(cv_level \<times> int) list"
  cf_queries :: "cv_QueryScore list"

fun cv_query_loop :: "re_lib \<Rightarrow> query list \<Rightarrow> cv_engine \<times> cv_QueryScore list \<times> (cv_level \<times> int) list
                       \<Rightarrow> cv_engine \<times> cv_QueryScore list \<times> (cv_level \<times> int) list" where
  "cv_query_loop lib [] st = st"
| "cv_query_loop lib (q # rest) (eng, query_scores, complexity_dist) =
     (let query_name = get_or (q_name q) (get_or (q_type q) ''unknown'');
          sql = get_or (q_sql q) []
      in if sql = [] then cv_query_loop lib rest (eng, query_scores, complexity_dist)
         else
           (let (score, eng') = cv_score_query lib eng sql query_name
            in cv_query_loop lib rest
                 (eng', query_scores @ [score],
                  counts_add (cq_complexity_level score) 1 complexity_dist)))"

definition cv_analyze_file :: "re_lib \<Rightarrow> cv_engine \<Rightarrow> file_data \<Rightarrow> py_error + (cv_FileScore \<times> cv_engine)" where
  "cv_analyze_file lib eng fd =
     (let (eng', query_scores, complexity_dist) = cv_query_loop lib (fd_queries fd) (eng, [], []);
          total_raw = real_of_int (sum_list (map cq_raw_score query_scores));
          total_weighted = sum_list (map cq_weighted_score query_scores)
      in err_bind (if query_scores \<noteq> [] then truediv total_weighted (real (length query_scores))
                   else Inr 0)
           (\<lambda>avg_score.
              Inr (\<lparr> cf_file_name = get_or (fd_file_name fd) [],
                     cf_file_path = get_or (fd_file_path fd) [],
                     cf_query_count = int (length query_scores),
                     cf_total_raw_score = py_round2 total_raw,
                     cf_total_weighted_score = py_round2 total_weighted,
                     cf_avg_score = py_round2 avg_score,
                     cf_complexity_distribution = complexity_dist,
                     cf_queries = query_scores \<rparr>,
                   eng')))"

record cv_totals =
  ct_all_files :: "cv_FileScore list"
  ct_total_queries :: int
  ct_total_score :: real
  ct_overall_complexity_dist :: "(cv_level \<times> int) list"

fun cv_file_loop :: "re_lib \<Rightarrow> file_data list \<Rightarrow> cv_engine \<times> cv_totals
                       \<Rightarrow> py_error + (cv_engine \<times> cv_totals)" where
  "cv_file_loop lib [] st = Inr st"
| "cv_file_loop lib (fd # rest) (eng, t) =
     err_bind (cv_analyze_file lib eng fd)
       (\<lambda>(file_score, eng').
          cv_file_loop lib rest
            (eng',
             \<lparr> ct_all_files = ct_all_files t @ [file_score],
               ct_total_queries = ct_total_queries t + cf_query_count file_score,
               ct_total_score = ct_total_score t + cf_total_weighted_score file_score,
               ct_overall_complexity_dist =
                 dist_loop (cf_complexity_distribution file_score) (ct_overall_complexity_dist t) \<rparr>))"

definition calculate_grade_distribution :: "cv_FileScore list \<Rightarrow> (string \<times> int) list" where
  "calculate_grade_distribution files =
     foldl (\<lambda>grade_dist file_score.
              foldl (\<lambda>grade_dist q.
                       foldl (\<lambda>grade_dist (grade, cnt). grade_add grade cnt grade_dist)
                             grade_dist (cq_grade_summary q))
                    grade_dist (cf_queries file_score))
           [(''A'', 0), (''P'', 0), (''M'', 0)] files"

record cv_summary =
  cs_total_queries :: int
  cs_total_weighted_score :: real
  cs_average_score :: real
  cs_overall_complexity_level :: cv_level
  cs_complexity_distribution :: "(cv_level \<times> int) list"
  cs_grade_distribution :: "(string \<times> int) list"

record cv_AnalysisResult =
  ca_metadata :: metadata
  ca_summary :: cv_summary
  ca_files :: "cv_FileScore list"
  ca_rule_statistics :: "(string \<times> int) list"

definition cv_analyze_json_files :: "re_lib \<Rightarrow> cv_engine \<Rightarrow> file_data list list
                                       \<Rightarrow> py_error + (cv_AnalysisResult \<times> cv_engine)" where
  "cv_analyze_json_files lib eng corpus =
     err_bind (cv_file_loop lib (concat corpus)
                 (eng, \<lparr> ct_all_files = [], ct_total_queries = 0, ct_total_score = 0,
                         ct_overall_complexity_dist = [] \<rparr>))
       (\<lambda>(eng', t).
          err_bind (if ct_total_queries t > 0
                    then truediv (ct_total_score t) (real_of_int (ct_total_queries t)) else Inr 0)
            (\<lambda>avg_score.
               Inr (\<lparr> ca_metadata =
                        \<lparr> md_source_db = cv_source_db eng',
                          md_total_files_analyzed = int (length (ct_all_files t)),
                          md_total_queries_analyzed = ct_total_queries t \<rparr>,
                      ca_summary =
                        \<lparr> cs_total_queries = ct_total_queries t,
                          cs_total_weighted_score = py_round2 (ct_total_score t),
                          cs_average_score = py_round2 avg_score,
                          cs_overall_complexity_level = cv_get_complexity_level avg_score,
                          cs_complexity_distribution = ct_overall_complexity_dist t,
                          cs_grade_distribution = calculate_grade_distribution (ct_all_files t) \<rparr>,
                      ca_files = ct_all_files t,
                      ca_rule_statistics = top_rules (cv_rule_match_counts eng') \<rparr>,
                    eng')))"

section \<open>Auxiliary notions for the statements\<close>

definition rule_count :: "re_lib \<Rightarrow> string \<Rightarrow> pattern option \<Rightarrow> nat" where
  \<comment> \<open>the number of matches of a rule's compiled pattern; an inert rule has none\<close>
  "rule_count lib sql cp =
     (case cp of None \<Rightarrow> 0 | Some pat \<Rightarrow> fst (count_pattern_matches lib sql pat))"

definition no_patterns :: re_lib where
  \<comment> \<open>a library for the examples: no pattern compiles and the table patterns find nothing\<close>
  "no_patterns =
     \<lparr> compile_regex = (\<lambda>p. None), compile_keyword = (\<lambda>p. None), str_tuple = (\<lambda>m. []),
       from_groups = (\<lambda>s. []), join_groups = (\<lambda>s. []), lateral_groups = (\<lambda>s. []),
       inner_from_groups = (\<lambda>s. []) \<rparr>"

definition no_rules :: rules_file where
  "no_rules = \<lparr> common_rules_section = [], dbms_specific_rules_section = [] \<rparr>"

definition one_match :: re_lib where
  \<comment> \<open>a library for the examples: every keyword pattern finds its keyword once, as the
      pattern of the keyword \<open>SELECT\<close> does in \<open>SELECT 1\<close>\<close>
  "one_match =
     \<lparr> compile_regex = (\<lambda>p. None), compile_keyword = (\<lambda>p. Some (\<lambda>s. Strs [p])),
       str_tuple = (\<lambda>m. []),
       from_groups = (\<lambda>s. []), join_groups = (\<lambda>s. []), lateral_groups = (\<lambda>s. []),
       inner_from_groups = (\<lambda>s. []) \<rparr>"

definition negative_weight_rules :: rules_file where
  \<comment> \<open>a rule file with one common rule, of weight \<open>-100\<close>, in a structural section\<close>
  "negative_weight_rules =
     \<lparr> common_rules_section =
         [(''structural_join'',
           YList [\<lparr> y_id = Some ''r1'', y_name = Some ''discount'', y_weight = Some (- 100),
                    y_conversion_grade = None, y_detection_method = Some ''keyword'',
                    y_pattern = Some ''SELECT'', y_logic = None, y_applicable_db = None,
                    y_group = None, y_note = None \<rparr>])],
       dbms_specific_rules_section = [] \<rparr>"

definition blank_queries :: "file_data list list" where
  \<comment> \<open>a corpus of one file with two queries, one with an empty and one with no SQL text\<close>
  "blank_queries =
     [[\<lparr> fd_file_name = Some ''a.xml'', fd_file_path = None,
         fd_queries = [\<lparr> q_name = Some ''q1'', q_type = None, q_sql = Some [] \<rparr>,
                       \<lparr> q_name = None, q_type = Some ''select'', q_sql = None \<rparr>] \<rparr>]]"


text \<open>
  Notions for the properties of the preprocessing. A character is special when a match of
  one of the patterns behind the CDATA step can start with it. A matcher is a simple
  replacer when each of its matches starts with a special character, is not empty and is
  replaced by one fixed character, a blank or a question mark. A matcher has no match in
  a text when it matches at no position of it. A text has normal white space when each
  of its white-space characters is a blank that no white-space character follows.
\<close>

definition special :: "char \<Rightarrow> bool" where
  "special c = (c = CHR ''<'' \<or> c = CHR ''#'' \<or> c = CHR ''$'' \<or> py_isspace c)"

definition simple_rep :: "matcher \<Rightarrow> char \<Rightarrow> bool" where
  "simple_rep m r =
     ((r = CHR '' '' \<or> r = CHR ''?'')
      \<and> (\<forall>u rep rest. m u = Some (rep, rest) \<longrightarrow>
             rep = [r] \<and> u \<noteq> [] \<and> special (hd u) \<and> length rest < length u
             \<and> (\<exists>k. rest = drop k u)))"

definition nomatch :: "matcher \<Rightarrow> string \<Rightarrow> bool" where
  "nomatch m x = (\<forall>n. m (drop n x) = None)"

definition letter :: "char \<Rightarrow> bool" where
  "letter c = (c \<in> set (lower_letters @ upper_letters))"

fun ws_normal :: "string \<Rightarrow> bool" where
  "ws_normal [] = True"
| "ws_normal (c # cs) =
     ((if py_isspace c then c = CHR '' '' \<and> (case cs of [] \<Rightarrow> True | d # _ \<Rightarrow> \<not> py_isspace d)
       else True) \<and> ws_normal cs)"


section \<open>Properties of the metrics scanner\<close>

lemma depth_loop_nonneg:
  "0 \<le> cur \<Longrightarrow> 0 \<le> mx \<Longrightarrow> 0 \<le> depth_loop sql sql_upper i cur mx"
proof (induction sql sql_upper i cur mx rule: depth_loop.induct)
  case (1 sql sql_upper i cur mx)
  show ?case
    using "1.IH" "1.prems" by (subst depth_loop.simps) auto
qed

text \<open>
  C4. For every input string, balanced or not, the reported subquery depth is at least 0
  and at most 5.
\<close>

theorem subquery_depth_bounds: "0 \<le> subquery_depth sql \<and> subquery_depth sql \<le> 5"
  unfolding subquery_depth_def using depth_loop_nonneg [of 0 0 sql "upper sql" 0] by simp

text \<open>
  C5. The column counter gives the sentinel \<open>-1\<close> for a bare and for a qualified star,
  and 4 for a list of four items one of which is a call with a comma between its arguments.
\<close>

theorem select_column_count_examples:
  "select_column_count ''SELECT * FROM t'' = -1
   \<and> select_column_count ''SELECT t.* FROM t'' = -1
   \<and> select_column_count ''SELECT a, b, f(x,y), c FROM t'' = 4"
  by code_simp

text \<open>
  C2 (as amended). For the query with two top-level \<open>AND\<close>s and a subquery holding a
  third one, the condition count is 3: the two top-level operators plus one. The
  \<open>AND\<close> inside the subquery is not counted, so the count is the same without it.
\<close>

theorem where_condition_count_example:
  "where_condition_count ''WHERE a=1 AND b=2 AND c IN (SELECT x FROM y WHERE p=1 AND q=2)'' = 3
   \<and> where_condition_count ''WHERE a=1 AND b=2 AND c IN (SELECT x FROM y WHERE p=1)'' = 3"
  by code_simp

theorem where_condition_count_counterexample:
  "where_condition_count ''WHERE a=1 AND b=2 AND c IN (SELECT x FROM y WHERE p=1 AND q=2)'' \<noteq> 2"
  by code_simp

section \<open>Properties of the rule catalog\<close>

lemma rule_loop_append:
  "rule_loop lib cat sub rs compiled = compiled @ map (\<lambda>r. compile_rule lib r cat sub) rs"
  by (induction rs arbitrary: compiled) simp_all

text \<open>
  C9. The DBMS-specific rules are those of one section only: the section under the
  dialect token as it is if there is one, else the one under the lower-cased token if
  there is one, else the one under the upper-cased token, else none. The sections under
  the later keys are not read once a key is found.
\<close>

theorem compile_dbms_rules_first_section:
  "compile_dbms_rules lib rf db =
     (case map_of (dbms_specific_rules_section rf) db of
        Some sec \<Rightarrow> section_rules lib db sec
      | None \<Rightarrow>
          (case map_of (dbms_specific_rules_section rf) (lower db) of
             Some sec \<Rightarrow> section_rules lib (lower db) sec
           | None \<Rightarrow>
               (case map_of (dbms_specific_rules_section rf) (upper db) of
                  Some sec \<Rightarrow> section_rules lib (upper db) sec
                | None \<Rightarrow> [])))"
  by (simp add: compile_dbms_rules_def section_rules_def rule_loop_append
           split: option.split yaml.split)

section \<open>Properties of the classifier\<close>

lemma level_loop_fall_through:
  "list_all (\<lambda>b. \<not> (band_min b \<le> score \<and> below score (band_max b))) bands
   \<Longrightarrow> level_loop bands score ft = ft"
  by (induction bands) auto

text \<open>
  C10. In both engines a score that lies in no band gets the label of the last, highest
  band; every negative score is such a score.
\<close>

theorem classifier_fall_through:
  "(list_all (\<lambda>b. \<not> (band_min b \<le> score \<and> below score (band_max b))) CV_COMPLEXITY_LEVELS
      \<longrightarrow> cv_get_complexity_level score = band_level (last CV_COMPLEXITY_LEVELS))
   \<and> (list_all (\<lambda>b. \<not> (band_min b \<le> score \<and> below score (band_max b))) COMPLEXITY_LEVELS
      \<longrightarrow> get_complexity_level score = band_level (last COMPLEXITY_LEVELS))
   \<and> (score < 0
      \<longrightarrow> cv_get_complexity_level score = L_very_high \<and> get_complexity_level score = L_very_complex)"
proof (intro conjI impI)
  assume "list_all (\<lambda>b. \<not> (band_min b \<le> score \<and> below score (band_max b))) CV_COMPLEXITY_LEVELS"
  then show "cv_get_complexity_level score = band_level (last CV_COMPLEXITY_LEVELS)"
    unfolding cv_get_complexity_level_def
    by (simp add: level_loop_fall_through) (simp add: CV_COMPLEXITY_LEVELS_def)
next
  assume "list_all (\<lambda>b. \<not> (band_min b \<le> score \<and> below score (band_max b))) COMPLEXITY_LEVELS"
  then show "get_complexity_level score = band_level (last COMPLEXITY_LEVELS)"
    unfolding get_complexity_level_def
    by (simp add: level_loop_fall_through) (simp add: COMPLEXITY_LEVELS_def)
next
  assume "score < 0"
  then show "cv_get_complexity_level score = L_very_high"
    by (simp add: cv_get_complexity_level_def CV_COMPLEXITY_LEVELS_def)
next
  assume "score < 0"
  then show "get_complexity_level score = L_very_complex"
    by (simp add: get_complexity_level_def COMPLEXITY_LEVELS_def)
qed

theorem classifier_fall_through_witness:
  "(-1 :: real) < 0
   \<and> list_all (\<lambda>b. \<not> (band_min b \<le> (-1 :: real) \<and> below (-1) (band_max b))) CV_COMPLEXITY_LEVELS
   \<and> list_all (\<lambda>b. \<not> (band_min b \<le> (-1 :: real) \<and> below (-1) (band_max b))) COMPLEXITY_LEVELS
   \<and> cv_get_complexity_level (-1) = L_very_high
   \<and> get_complexity_level (-1) = L_very_complex
   \<and> cv_get_complexity_level (-1) = band_level (last CV_COMPLEXITY_LEVELS)
   \<and> get_complexity_level (-1) = band_level (last COMPLEXITY_LEVELS)
   \<and> band_level (hd CV_COMPLEXITY_LEVELS) \<noteq> cv_get_complexity_level (-1)
   \<and> band_level (hd COMPLEXITY_LEVELS) \<noteq> get_complexity_level (-1)"
proof -
  have a: "list_all (\<lambda>b. \<not> (band_min b \<le> (-1 :: real) \<and> below (-1) (band_max b))) CV_COMPLEXITY_LEVELS"
    by (simp add: CV_COMPLEXITY_LEVELS_def)
  have b: "list_all (\<lambda>b. \<not> (band_min b \<le> (-1 :: real) \<and> below (-1) (band_max b))) COMPLEXITY_LEVELS"
    by (simp add: COMPLEXITY_LEVELS_def)
  have c: "band_level (hd CV_COMPLEXITY_LEVELS) \<noteq> L_very_high"
    by (simp add: CV_COMPLEXITY_LEVELS_def)
  have d: "band_level (hd COMPLEXITY_LEVELS) \<noteq> L_very_complex"
    by (simp add: COMPLEXITY_LEVELS_def)
  have e: "band_level (last CV_COMPLEXITY_LEVELS) = L_very_high"
    by (simp add: CV_COMPLEXITY_LEVELS_def)
  have f: "band_level (last COMPLEXITY_LEVELS) = L_very_complex"
    by (simp add: COMPLEXITY_LEVELS_def)
  show ?thesis
    using classifier_fall_through [of "-1"] a b c d e f by simp
qed

section \<open>Properties of the normalised score\<close>

lemma max_score_positive: "0 < get_or (map_of CATEGORY_MAX_SCORES cat) 100"
  by (simp add: CATEGORY_MAX_SCORES_def get_or_def)

lemma normalized_loop_upper:
  "list_all (\<lambda>(cat, w). 0 \<le> w) ws
   \<Longrightarrow> normalized_loop ws cs acc \<le> acc + 10 * sum_list (map snd ws)"
proof (induction ws arbitrary: acc)
  case Nil
  then show ?case by simp
next
  case (Cons p ws)
  obtain cat w where p: "p = (cat, w)" by (cases p)
  have w: "0 \<le> w" and rest: "list_all (\<lambda>(cat, w). 0 \<le> w) ws"
    using Cons.prems p by simp_all
  define n where "n = min (get_or (cs cat) 0 / get_or (map_of CATEGORY_MAX_SCORES cat) 100 * 10) 10"
  have "n \<le> 10" by (simp add: n_def)
  then have "n * w \<le> 10 * w" using w by (rule mult_right_mono)
  moreover have "normalized_loop ws cs (acc + n * w) \<le> acc + n * w + 10 * sum_list (map snd ws)"
    using Cons.IH [OF rest] .
  ultimately show ?case
    by (simp add: p n_def Let_def)
qed

lemma normalized_loop_lower:
  "list_all (\<lambda>(cat, w). 0 \<le> w) ws \<Longrightarrow> (\<And>c. 0 \<le> get_or (cs c) 0)
   \<Longrightarrow> acc \<le> normalized_loop ws cs acc"
proof (induction ws arbitrary: acc)
  case Nil
  then show ?case by simp
next
  case (Cons p ws)
  obtain cat w where p: "p = (cat, w)" by (cases p)
  have w: "0 \<le> w" and rest: "list_all (\<lambda>(cat, w). 0 \<le> w) ws"
    using Cons.prems(1) p by simp_all
  define n where "n = min (get_or (cs cat) 0 / get_or (map_of CATEGORY_MAX_SCORES cat) 100 * 10) 10"
  have "0 \<le> get_or (cs cat) 0 / get_or (map_of CATEGORY_MAX_SCORES cat) 100"
    using Cons.prems(2) [of cat] max_score_positive [of cat] by (simp add: divide_nonneg_pos)
  then have "0 \<le> get_or (cs cat) 0 / get_or (map_of CATEGORY_MAX_SCORES cat) 100 * 10"
    by (rule mult_nonneg_nonneg) simp
  then have "0 \<le> n" unfolding n_def by (rule min.boundedI) simp
  then have "0 \<le> n * w" using w by simp
  moreover have "acc + n * w \<le> normalized_loop ws cs (acc + n * w)"
    using Cons.IH [OF rest Cons.prems(2)] .
  ultimately show ?case
    by (simp add: p n_def Let_def)
qed

lemma category_weights_nonneg: "list_all (\<lambda>(cat, w). 0 \<le> w) CATEGORY_WEIGHTS"
  by (simp add: CATEGORY_WEIGHTS_def)

lemma category_weights_sum: "sum_list (map snd CATEGORY_WEIGHTS) = 1"
  by (simp add: CATEGORY_WEIGHTS_def)

text \<open>
  The category weights are not negative and sum to 1, and every category's share is
  clamped to 10 from above. So the normalised score is at most 10 for every assignment of
  category raw scores, and it is at least 0 when no category raw score is negative, as it
  is when no rule weight is negative.
\<close>

lemma normalized_score_range:
  "calculate_normalized_score cs \<le> 10
   \<and> ((\<forall>c. 0 \<le> get_or (cs c) 0) \<longrightarrow> 0 \<le> calculate_normalized_score cs)"
proof (intro conjI impI)
  show "calculate_normalized_score cs \<le> 10"
    using normalized_loop_upper [OF category_weights_nonneg, of cs 0]
    by (simp add: calculate_normalized_score_def category_weights_sum)
next
  assume "\<forall>c. 0 \<le> get_or (cs c) 0"
  then show "0 \<le> calculate_normalized_score cs"
    using normalized_loop_lower [OF category_weights_nonneg, of cs 0]
    by (simp add: calculate_normalized_score_def)
qed

text \<open>
  C6. The normalised score is documented as a score from 0 to 10, for every assignment of
  category raw scores. The code misses the lower clamp: a negative category raw score
  gives a negative score. For the raw score \<open>-100\<close> of the category \<open>structural\<close> the
  score is \<open>-3\<close>. The engine reaches this input from a rule file with one common rule
  of weight \<open>-100\<close> that matches the query once: the query's category score is
  \<open>-100\<close> and its stored normalised score is \<open>-3\<close>.
\<close>

theorem normalized_score_below_zero:
  "calculate_normalized_score (Map.empty(''structural'' \<mapsto> - 100)) = - 3
   \<and> qs_category_scores
        (fst (score_query one_match (init_engine one_match negative_weight_rules ''ORA'')
                ''SELECT 1'' ''q'')) ''structural'' = Some (- 100)
   \<and> qs_normalized_score
        (fst (score_query one_match (init_engine one_match negative_weight_rules ''ORA'')
                ''SELECT 1'' ''q'')) = - 3"
proof (intro conjI)
  show "calculate_normalized_score (Map.empty(''structural'' \<mapsto> - 100)) = - 3"
    by (simp add: calculate_normalized_score_def CATEGORY_WEIGHTS_def CATEGORY_MAX_SCORES_def
          get_or_def Let_def)
  show "qs_category_scores
        (fst (score_query one_match (init_engine one_match negative_weight_rules ''ORA'')
                ''SELECT 1'' ''q'')) ''structural'' = Some (- 100)"
    by code_simp
  show "qs_normalized_score
        (fst (score_query one_match (init_engine one_match negative_weight_rules ''ORA'')
                ''SELECT 1'' ''q'')) = - 3"
    by code_simp
qed

section \<open>Properties of the raw score\<close>

lemma match_loop_sum:
  "sum_list (map (\<lambda>m. rm_weight m * rm_match_count m) (fst (match_loop lib sql rs (matched, counts))))
   = sum_list (map (\<lambda>m. rm_weight m * rm_match_count m) matched)
     + sum_list (map (\<lambda>r. cr_weight r * int (rule_count lib sql (compiled_pattern r))) rs)"
proof (induction rs arbitrary: matched counts)
  case Nil
  then show ?case by simp
next
  case (Cons r rs)
  show ?case
  proof (cases "compiled_pattern r")
    case None
    then show ?thesis using Cons.IH by (simp add: rule_count_def)
  next
    case (Some pat)
    obtain cnt pats where c: "count_pattern_matches lib sql pat = (cnt, pats)"
      by (cases "count_pattern_matches lib sql pat")
    show ?thesis
      using Some c Cons.IH by (simp add: rule_count_def rule_match_def)
  qed
qed

lemma match_loop_ids:
  "map rm_rule_id (fst (match_loop lib sql rs (matched, counts)))
   = map rm_rule_id matched
     @ map cr_id (filter (\<lambda>r. 0 < rule_count lib sql (compiled_pattern r)) rs)"
proof (induction rs arbitrary: matched counts)
  case Nil
  then show ?case by simp
next
  case (Cons r rs)
  show ?case
  proof (cases "compiled_pattern r")
    case None
    then show ?thesis using Cons.IH by (simp add: rule_count_def)
  next
    case (Some pat)
    obtain cnt pats where c: "count_pattern_matches lib sql pat = (cnt, pats)"
      by (cases "count_pattern_matches lib sql pat")
    show ?thesis
      using Some c Cons.IH by (simp add: rule_count_def rule_match_def)
  qed
qed

lemma cv_match_loop_sum:
  "sum_list (map (\<lambda>m. cm_weight m * cm_match_count m) (st_matched_rules (cv_match_loop lib sql rs st)))
   = sum_list (map (\<lambda>m. cm_weight m * cm_match_count m) (st_matched_rules st))
     + sum_list (map (\<lambda>r. cvr_weight r * int (rule_count lib sql (cvr_compiled_pattern r))) rs)"
proof (induction rs arbitrary: st)
  case Nil
  then show ?case by simp
next
  case (Cons r rs)
  show ?case
  proof (cases "cvr_compiled_pattern r")
    case None
    then show ?thesis using Cons.IH by (simp add: rule_count_def)
  next
    case (Some pat)
    obtain cnt pats where c: "count_pattern_matches lib sql pat = (cnt, pats)"
      by (cases "count_pattern_matches lib sql pat")
    show ?thesis
      using Some c Cons.IH by (simp add: rule_count_def cv_rule_match_def)
  qed
qed

lemma cv_match_loop_ids:
  "map cm_rule_id (st_matched_rules (cv_match_loop lib sql rs st))
   = map cm_rule_id (st_matched_rules st)
     @ map cvr_id (filter (\<lambda>r. 0 < rule_count lib sql (cvr_compiled_pattern r)) rs)"
proof (induction rs arbitrary: st)
  case Nil
  then show ?case by simp
next
  case (Cons r rs)
  show ?case
  proof (cases "cvr_compiled_pattern r")
    case None
    then show ?thesis using Cons.IH by (simp add: rule_count_def)
  next
    case (Some pat)
    obtain cnt pats where c: "count_pattern_matches lib sql pat = (cnt, pats)"
      by (cases "count_pattern_matches lib sql pat")
    show ?thesis
      using Some c Cons.IH by (simp add: rule_count_def cv_rule_match_def)
  qed
qed

lemma match_loop_sum_st:
  "sum_list (map (\<lambda>m. rm_weight m * rm_match_count m) (fst (match_loop lib sql rs st)))
   = sum_list (map (\<lambda>m. rm_weight m * rm_match_count m) (fst st))
     + sum_list (map (\<lambda>r. cr_weight r * int (rule_count lib sql (compiled_pattern r))) rs)"
  using match_loop_sum [of lib sql rs "fst st" "snd st"] by simp

lemma match_loop_ids_st:
  "map rm_rule_id (fst (match_loop lib sql rs st))
   = map rm_rule_id (fst st)
     @ map cr_id (filter (\<lambda>r. 0 < rule_count lib sql (compiled_pattern r)) rs)"
  using match_loop_ids [of lib sql rs "fst st" "snd st"] by simp

text \<open>
  C1. In both engines the raw score of a scored query is the sum of weight times match
  count over the matched rules of the result. The matched rules of the conversion engine
  are the compiled rules with at least one match, in their order; those of the structural
  engine are the synthetic metric rules followed by the common and the DBMS-specific
  rules with at least one match. A rule without a compiled pattern and a rule without a
  match have the count 0 and add nothing to the sum.
\<close>

theorem raw_score_is_weighted_sum:
  "cq_raw_score (fst (cv_score_query lib cv_eng sql query_name))
     = sum_list (map (\<lambda>m. cm_weight m * cm_match_count m)
                     (cq_matched_rules (fst (cv_score_query lib cv_eng sql query_name))))
   \<and> cq_raw_score (fst (cv_score_query lib cv_eng sql query_name))
     = sum_list (map (\<lambda>r. cvr_weight r * int (rule_count lib (preprocess_sql sql) (cvr_compiled_pattern r)))
                     (compiled_patterns cv_eng))
   \<and> map cm_rule_id (cq_matched_rules (fst (cv_score_query lib cv_eng sql query_name)))
     = map cvr_id (filter (\<lambda>r. 0 < rule_count lib (preprocess_sql sql) (cvr_compiled_pattern r))
                          (compiled_patterns cv_eng))
   \<and> qs_raw_score (fst (score_query lib eng sql query_name))
     = sum_list (map (\<lambda>m. rm_weight m * rm_match_count m)
                     (qs_matched_rules (fst (score_query lib eng sql query_name))))
   \<and> qs_raw_score (fst (score_query lib eng sql query_name))
     = sum_list (map (\<lambda>m. rm_weight m * rm_match_count m)
                     (apply_metric_rules (calculate_metrics lib (preprocess_sql sql))))
       + sum_list (map (\<lambda>r. cr_weight r * int (rule_count lib (preprocess_sql sql) (compiled_pattern r)))
                       (common_rules eng))
       + sum_list (map (\<lambda>r. cr_weight r * int (rule_count lib (preprocess_sql sql) (compiled_pattern r)))
                       (dbms_rules eng))
   \<and> map rm_rule_id (qs_matched_rules (fst (score_query lib eng sql query_name)))
     = map rm_rule_id (apply_metric_rules (calculate_metrics lib (preprocess_sql sql)))
       @ map cr_id (filter (\<lambda>r. 0 < rule_count lib (preprocess_sql sql) (compiled_pattern r))
                           (common_rules eng @ dbms_rules eng))"
proof (intro conjI)
  show "cq_raw_score (fst (cv_score_query lib cv_eng sql query_name))
     = sum_list (map (\<lambda>m. cm_weight m * cm_match_count m)
                     (cq_matched_rules (fst (cv_score_query lib cv_eng sql query_name))))"
    by (simp add: cv_score_query_def Let_def)
  show "cq_raw_score (fst (cv_score_query lib cv_eng sql query_name))
     = sum_list (map (\<lambda>r. cvr_weight r * int (rule_count lib (preprocess_sql sql) (cvr_compiled_pattern r)))
                     (compiled_patterns cv_eng))"
    by (simp add: cv_score_query_def Let_def cv_match_loop_sum)
  show "map cm_rule_id (cq_matched_rules (fst (cv_score_query lib cv_eng sql query_name)))
     = map cvr_id (filter (\<lambda>r. 0 < rule_count lib (preprocess_sql sql) (cvr_compiled_pattern r))
                          (compiled_patterns cv_eng))"
    by (simp add: cv_score_query_def Let_def cv_match_loop_ids)
  show "qs_raw_score (fst (score_query lib eng sql query_name))
     = sum_list (map (\<lambda>m. rm_weight m * rm_match_count m)
                     (qs_matched_rules (fst (score_query lib eng sql query_name))))"
    by (simp add: score_query_def Let_def)
  show "qs_raw_score (fst (score_query lib eng sql query_name))
     = sum_list (map (\<lambda>m. rm_weight m * rm_match_count m)
                     (apply_metric_rules (calculate_metrics lib (preprocess_sql sql))))
       + sum_list (map (\<lambda>r. cr_weight r * int (rule_count lib (preprocess_sql sql) (compiled_pattern r)))
                       (common_rules eng))
       + sum_list (map (\<lambda>r. cr_weight r * int (rule_count lib (preprocess_sql sql) (compiled_pattern r)))
                       (dbms_rules eng))"
    by (simp add: score_query_def Let_def match_loop_sum_st)
  show "map rm_rule_id (qs_matched_rules (fst (score_query lib eng sql query_name)))
     = map rm_rule_id (apply_metric_rules (calculate_metrics lib (preprocess_sql sql)))
       @ map cr_id (filter (\<lambda>r. 0 < rule_count lib (preprocess_sql sql) (compiled_pattern r))
                           (common_rules eng @ dbms_rules eng))"
    by (simp add: score_query_def Let_def match_loop_ids_st)
qed

section \<open>Properties of the stored SQL text\<close>

lemma score_query_sql: "qs_sql (fst (score_query lib eng sql query_name)) = truncate_sql sql"
  by (simp add: score_query_def Let_def)

lemma cv_score_query_sql: "cq_sql (fst (cv_score_query lib eng sql query_name)) = truncate_sql sql"
  by (simp add: cv_score_query_def Let_def)

text \<open>
  C8 (as amended). The SQL text stored in a query score is the original text when that
  has at most 500 characters, and its first 500 characters followed by three dots
  otherwise; it is at most 503 characters long.
\<close>

theorem stored_sql_length:
  "qs_sql (fst (score_query lib eng sql query_name))
     = (if length sql > 500 then take 500 sql @ ''...'' else sql)
   \<and> cq_sql (fst (cv_score_query lib cv_eng sql query_name))
     = (if length sql > 500 then take 500 sql @ ''...'' else sql)
   \<and> length (qs_sql (fst (score_query lib eng sql query_name))) \<le> 503
   \<and> length (cq_sql (fst (cv_score_query lib cv_eng sql query_name))) \<le> 503"
  by (simp add: score_query_sql cv_score_query_sql truncate_sql_def)

theorem stored_sql_length_counterexample:
  "\<not> length (cq_sql (fst (cv_score_query no_patterns (cv_init_engine no_patterns [] ''ORA'')
                            (replicate 501 CHR ''a'') ''q''))) \<le> 500
   \<and> \<not> length (qs_sql (fst (score_query no_patterns (init_engine no_patterns no_rules ''ORA'')
                            (replicate 501 CHR ''a'') ''q''))) \<le> 500"
  by (simp add: score_query_sql cv_score_query_sql truncate_sql_def)


section \<open>Properties of the file and corpus analysis\<close>

lemma py_round2_zero: "py_round2 0 = 0"
  by (simp add: py_round2_def)

lemma query_loop_filter:
  "query_loop lib (filter scoreable qs) st = query_loop lib qs st"
proof (induction qs arbitrary: st)
  case Nil
  then show ?case by simp
next
  case (Cons q qs)
  obtain eng scores cdist where st: "st = (eng, scores, cdist)" by (cases st)
  show ?case
  proof (cases "scoreable q")
    case True
    then show ?thesis using Cons.IH
      by (simp add: st scoreable_def Let_def split: prod.split)
  next
    case False
    then show ?thesis using Cons.IH by (simp add: st scoreable_def Let_def)
  qed
qed

lemma query_loop_length:
  "length (fst (snd (query_loop lib qs (eng, scores, cdist))))
   = length scores + length (filter scoreable qs)"
proof (induction qs arbitrary: eng scores cdist)
  case Nil
  then show ?case by simp
next
  case (Cons q qs)
  show ?case
  proof (cases "scoreable q")
    case True
    then show ?thesis using Cons.IH
      by (simp add: scoreable_def Let_def split: prod.split)
  next
    case False
    then show ?thesis using Cons.IH by (simp add: scoreable_def Let_def)
  qed
qed

lemma query_loop_none:
  "list_all (\<lambda>q. \<not> scoreable q) qs \<Longrightarrow> query_loop lib qs st = st"
proof (induction qs)
  case Nil
  then show ?case by simp
next
  case (Cons q qs)
  obtain eng scores cdist where st: "st = (eng, scores, cdist)" by (cases st)
  show ?case using Cons by (simp add: st scoreable_def Let_def)
qed

lemma analyze_file_result:
  "\<exists>fs eng'. analyze_file lib eng fd = Inr (fs, eng')
      \<and> fs_query_count fs = int (length (filter scoreable (fd_queries fd)))
      \<and> length (fs_queries fs) = length (filter scoreable (fd_queries fd))"
proof -
  obtain eng' scores cdist where q: "query_loop lib (fd_queries fd) (eng, [], []) = (eng', scores, cdist)"
    by (cases "query_loop lib (fd_queries fd) (eng, [], [])")
  have len: "length scores = length (filter scoreable (fd_queries fd))"
    using query_loop_length [of lib "fd_queries fd" eng "[]" "[]"] q by simp
  show ?thesis
    by (cases "scores = []") (simp_all add: analyze_file_def q truediv_def Let_def len [symmetric])
qed

lemma analyze_file_none:
  "list_all (\<lambda>q. \<not> scoreable q) (fd_queries fd)
   \<Longrightarrow> \<exists>fs. analyze_file lib eng fd = Inr (fs, eng) \<and> fs_query_count fs = 0
         \<and> fs_total_raw_score fs = 0 \<and> fs_avg_score fs = 0 \<and> fs_avg_normalized_score fs = 0
         \<and> fs_queries fs = []"
  by (simp add: analyze_file_def query_loop_none py_round2_zero)

lemma file_loop_total: "\<exists>eng' t'. file_loop lib fds (eng, t) = Inr (eng', t')"
proof (induction fds arbitrary: eng t)
  case Nil
  then show ?case by simp
next
  case (Cons fd fds)
  obtain fs eng1 where a: "analyze_file lib eng fd = Inr (fs, eng1)"
    using analyze_file_result [of lib eng fd] by blast
  show ?case using Cons.IH by (simp add: a)
qed

lemma file_loop_none:
  "list_all (\<lambda>fd. list_all (\<lambda>q. \<not> scoreable q) (fd_queries fd)) fds
   \<Longrightarrow> \<exists>t'. file_loop lib fds (eng, t) = Inr (eng, t')
         \<and> t_total_queries t' = t_total_queries t
         \<and> t_total_score t' = t_total_score t
         \<and> t_total_normalized t' = t_total_normalized t
         \<and> (list_all (\<lambda>fs. fs_avg_score fs = 0 \<and> fs_avg_normalized_score fs = 0) (t_all_files t)
            \<longrightarrow> list_all (\<lambda>fs. fs_avg_score fs = 0 \<and> fs_avg_normalized_score fs = 0) (t_all_files t'))"
proof (induction fds arbitrary: t)
  case Nil
  then show ?case by simp
next
  case (Cons fd fds)
  have h: "list_all (\<lambda>q. \<not> scoreable q) (fd_queries fd)"
    and rest: "list_all (\<lambda>fd. list_all (\<lambda>q. \<not> scoreable q) (fd_queries fd)) fds"
    using Cons.prems by simp_all
  obtain fs where a: "analyze_file lib eng fd = Inr (fs, eng)" and z: "fs_query_count fs = 0"
    "fs_total_raw_score fs = 0" "fs_avg_score fs = 0" "fs_avg_normalized_score fs = 0"
    using analyze_file_none [OF h, of lib eng] by blast
  define t1 where "t1 = \<lparr> t_all_files = t_all_files t @ [fs],
               t_total_queries = t_total_queries t + fs_query_count fs,
               t_total_score = t_total_score t + fs_total_raw_score fs,
               t_total_normalized = t_total_normalized t
                 + fs_avg_normalized_score fs * real_of_int (fs_query_count fs),
               t_overall_complexity_dist =
                 dist_loop (fs_complexity_distribution fs) (t_overall_complexity_dist t) \<rparr>"
  have step: "file_loop lib (fd # fds) (eng, t) = file_loop lib fds (eng, t1)"
    by (simp add: a t1_def)
  obtain t' where r: "file_loop lib fds (eng, t1) = Inr (eng, t')"
    "t_total_queries t' = t_total_queries t1" "t_total_score t' = t_total_score t1"
    "t_total_normalized t' = t_total_normalized t1"
    "list_all (\<lambda>fs. fs_avg_score fs = 0 \<and> fs_avg_normalized_score fs = 0) (t_all_files t1)
            \<longrightarrow> list_all (\<lambda>fs. fs_avg_score fs = 0 \<and> fs_avg_normalized_score fs = 0) (t_all_files t')"
    using Cons.IH [OF rest, of t1] by blast
  show ?case
    using step r z by (simp add: t1_def)
qed

lemma analyze_json_files_total: "\<exists>r eng'. analyze_json_files lib eng corpus = Inr (r, eng')"
proof -
  obtain eng' t' where f: "file_loop lib (concat corpus)
                 (eng, \<lparr> t_all_files = [], t_total_queries = 0, t_total_score = 0,
                         t_total_normalized = 0, t_overall_complexity_dist = [] \<rparr>) = Inr (eng', t')"
    using file_loop_total by blast
  show ?thesis
    by (simp add: analyze_json_files_def f truediv_def)
qed

lemma analyze_json_files_none:
  assumes "list_all (\<lambda>fd. list_all (\<lambda>q. \<not> scoreable q) (fd_queries fd)) (concat corpus)"
  shows "\<exists>r eng'. analyze_json_files lib eng corpus = Inr (r, eng')
           \<and> sm_total_queries (ar_summary r) = 0
           \<and> sm_average_raw_score (ar_summary r) = 0
           \<and> sm_average_normalized_score (ar_summary r) = 0
           \<and> list_all (\<lambda>fs. fs_avg_score fs = 0 \<and> fs_avg_normalized_score fs = 0) (ar_files r)"
proof -
  obtain t' where f: "file_loop lib (concat corpus)
                 (eng, \<lparr> t_all_files = [], t_total_queries = 0, t_total_score = 0,
                         t_total_normalized = 0, t_overall_complexity_dist = [] \<rparr>) = Inr (eng, t')"
     and z: "t_total_queries t' = 0"
     and fl: "list_all (\<lambda>fs. fs_avg_score fs = 0 \<and> fs_avg_normalized_score fs = 0) (t_all_files t')"
    using file_loop_none [OF assms, of lib eng "\<lparr> t_all_files = [], t_total_queries = 0, t_total_score = 0,
                         t_total_normalized = 0, t_overall_complexity_dist = [] \<rparr>"] by auto
  show ?thesis
    by (simp add: analyze_json_files_def f z fl py_round2_zero)
qed


lemma cv_query_loop_filter:
  "cv_query_loop lib (filter scoreable qs) st = cv_query_loop lib qs st"
proof (induction qs arbitrary: st)
  case Nil
  then show ?case by simp
next
  case (Cons q qs)
  obtain eng scores cdist where st: "st = (eng, scores, cdist)" by (cases st)
  show ?case
  proof (cases "scoreable q")
    case True
    then show ?thesis using Cons.IH
      by (simp add: st scoreable_def Let_def split: prod.split)
  next
    case False
    then show ?thesis using Cons.IH by (simp add: st scoreable_def Let_def)
  qed
qed

lemma cv_query_loop_length:
  "length (fst (snd (cv_query_loop lib qs (eng, scores, cdist))))
   = length scores + length (filter scoreable qs)"
proof (induction qs arbitrary: eng scores cdist)
  case Nil
  then show ?case by simp
next
  case (Cons q qs)
  show ?case
  proof (cases "scoreable q")
    case True
    then show ?thesis using Cons.IH
      by (simp add: scoreable_def Let_def split: prod.split)
  next
    case False
    then show ?thesis using Cons.IH by (simp add: scoreable_def Let_def)
  qed
qed

lemma cv_query_loop_none:
  "list_all (\<lambda>q. \<not> scoreable q) qs \<Longrightarrow> cv_query_loop lib qs st = st"
proof (induction qs)
  case Nil
  then show ?case by simp
next
  case (Cons q qs)
  obtain eng scores cdist where st: "st = (eng, scores, cdist)" by (cases st)
  show ?case using Cons by (simp add: st scoreable_def Let_def)
qed

lemma cv_analyze_file_result:
  "\<exists>fs eng'. cv_analyze_file lib eng fd = Inr (fs, eng')
      \<and> cf_query_count fs = int (length (filter scoreable (fd_queries fd)))
      \<and> length (cf_queries fs) = length (filter scoreable (fd_queries fd))"
proof -
  obtain eng' scores cdist where q: "cv_query_loop lib (fd_queries fd) (eng, [], []) = (eng', scores, cdist)"
    by (cases "cv_query_loop lib (fd_queries fd) (eng, [], [])")
  have len: "length scores = length (filter scoreable (fd_queries fd))"
    using cv_query_loop_length [of lib "fd_queries fd" eng "[]" "[]"] q by simp
  show ?thesis
    by (cases "scores = []") (simp_all add: cv_analyze_file_def q truediv_def Let_def len [symmetric])
qed

lemma cv_analyze_file_none:
  "list_all (\<lambda>q. \<not> scoreable q) (fd_queries fd)
   \<Longrightarrow> \<exists>fs. cv_analyze_file lib eng fd = Inr (fs, eng) \<and> cf_query_count fs = 0
         \<and> cf_total_weighted_score fs = 0 \<and> cf_avg_score fs = 0
         \<and> cf_queries fs = []"
  by (simp add: cv_analyze_file_def cv_query_loop_none py_round2_zero)

lemma cv_file_loop_total: "\<exists>eng' t'. cv_file_loop lib fds (eng, t) = Inr (eng', t')"
proof (induction fds arbitrary: eng t)
  case Nil
  then show ?case by simp
next
  case (Cons fd fds)
  obtain fs eng1 where a: "cv_analyze_file lib eng fd = Inr (fs, eng1)"
    using cv_analyze_file_result [of lib eng fd] by blast
  show ?case using Cons.IH by (simp add: a)
qed

lemma cv_file_loop_none:
  "list_all (\<lambda>fd. list_all (\<lambda>q. \<not> scoreable q) (fd_queries fd)) fds
   \<Longrightarrow> \<exists>t'. cv_file_loop lib fds (eng, t) = Inr (eng, t')
         \<and> ct_total_queries t' = ct_total_queries t
         \<and> ct_total_score t' = ct_total_score t
         \<and> (list_all (\<lambda>fs. cf_avg_score fs = 0) (ct_all_files t)
            \<longrightarrow> list_all (\<lambda>fs. cf_avg_score fs = 0) (ct_all_files t'))"
proof (induction fds arbitrary: t)
  case Nil
  then show ?case by simp
next
  case (Cons fd fds)
  have h: "list_all (\<lambda>q. \<not> scoreable q) (fd_queries fd)"
    and rest: "list_all (\<lambda>fd. list_all (\<lambda>q. \<not> scoreable q) (fd_queries fd)) fds"
    using Cons.prems by simp_all
  obtain fs where a: "cv_analyze_file lib eng fd = Inr (fs, eng)" and z: "cf_query_count fs = 0"
    "cf_total_weighted_score fs = 0" "cf_avg_score fs = 0"
    using cv_analyze_file_none [OF h, of lib eng] by blast
  define t1 where "t1 = \<lparr> ct_all_files = ct_all_files t @ [fs],
               ct_total_queries = ct_total_queries t + cf_query_count fs,
               ct_total_score = ct_total_score t + cf_total_weighted_score fs,
               ct_overall_complexity_dist =
                 dist_loop (cf_complexity_distribution fs) (ct_overall_complexity_dist t) \<rparr>"
  have step: "cv_file_loop lib (fd # fds) (eng, t) = cv_file_loop lib fds (eng, t1)"
    by (simp add: a t1_def)
  obtain t' where r: "cv_file_loop lib fds (eng, t1) = Inr (eng, t')"
    "ct_total_queries t' = ct_total_queries t1" "ct_total_score t' = ct_total_score t1"
    "list_all (\<lambda>fs. cf_avg_score fs = 0) (ct_all_files t1)
            \<longrightarrow> list_all (\<lambda>fs. cf_avg_score fs = 0) (ct_all_files t')"
    using Cons.IH [OF rest, of t1] by blast
  show ?case
    using step r z by (simp add: t1_def)
qed

lemma cv_analyze_json_files_total: "\<exists>r eng'. cv_analyze_json_files lib eng corpus = Inr (r, eng')"
proof -
  obtain eng' t' where f: "cv_file_loop lib (concat corpus)
                 (eng, \<lparr> ct_all_files = [], ct_total_queries = 0, ct_total_score = 0, ct_overall_complexity_dist = [] \<rparr>) = Inr (eng', t')"
    using cv_file_loop_total by blast
  show ?thesis
    by (simp add: cv_analyze_json_files_def f truediv_def)
qed

lemma cv_analyze_json_files_none:
  assumes "list_all (\<lambda>fd. list_all (\<lambda>q. \<not> scoreable q) (fd_queries fd)) (concat corpus)"
  shows "\<exists>r eng'. cv_analyze_json_files lib eng corpus = Inr (r, eng')
           \<and> cs_total_queries (ca_summary r) = 0
           \<and> cs_average_score (ca_summary r) = 0
           \<and> list_all (\<lambda>fs. cf_avg_score fs = 0) (ca_files r)"
proof -
  obtain t' where f: "cv_file_loop lib (concat corpus)
                 (eng, \<lparr> ct_all_files = [], ct_total_queries = 0, ct_total_score = 0, ct_overall_complexity_dist = [] \<rparr>) = Inr (eng, t')"
     and z: "ct_total_queries t' = 0"
     and fl: "list_all (\<lambda>fs. cf_avg_score fs = 0) (ct_all_files t')"
    using cv_file_loop_none [OF assms, of lib eng "\<lparr> ct_all_files = [], ct_total_queries = 0, ct_total_score = 0, ct_overall_complexity_dist = [] \<rparr>"] by auto
  show ?thesis
    by (simp add: cv_analyze_json_files_def f z fl py_round2_zero)
qed


text \<open>
  C7. A query whose SQL text is empty or missing is skipped: a file is analysed as if
  such queries were not in it, and its query count is the number of the other queries.
  The analysis of a file and of a corpus never ends in a division error. For a corpus
  without a query to score, the total number of queries and the averages of the summary
  are 0, and so are the averages of every file.
\<close>

theorem empty_sql_skipped:
  "analyze_file lib eng fd = analyze_file lib eng (fd\<lparr>fd_queries := filter scoreable (fd_queries fd)\<rparr>)
   \<and> (\<exists>fs eng'. analyze_file lib eng fd = Inr (fs, eng')
          \<and> fs_query_count fs = int (length (filter scoreable (fd_queries fd)))
          \<and> length (fs_queries fs) = length (filter scoreable (fd_queries fd)))
   \<and> (\<exists>r eng'. analyze_json_files lib eng corpus = Inr (r, eng'))
   \<and> (list_all (\<lambda>fd. list_all (\<lambda>q. \<not> scoreable q) (fd_queries fd)) (concat corpus)
        \<longrightarrow> (\<exists>r eng'. analyze_json_files lib eng corpus = Inr (r, eng')
               \<and> sm_total_queries (ar_summary r) = 0
               \<and> sm_average_raw_score (ar_summary r) = 0
               \<and> sm_average_normalized_score (ar_summary r) = 0
               \<and> list_all (\<lambda>fs. fs_avg_score fs = 0 \<and> fs_avg_normalized_score fs = 0) (ar_files r)))
   \<and> cv_analyze_file lib cv_eng fd
        = cv_analyze_file lib cv_eng (fd\<lparr>fd_queries := filter scoreable (fd_queries fd)\<rparr>)
   \<and> (\<exists>fs eng'. cv_analyze_file lib cv_eng fd = Inr (fs, eng')
          \<and> cf_query_count fs = int (length (filter scoreable (fd_queries fd)))
          \<and> length (cf_queries fs) = length (filter scoreable (fd_queries fd)))
   \<and> (\<exists>r eng'. cv_analyze_json_files lib cv_eng corpus = Inr (r, eng'))
   \<and> (list_all (\<lambda>fd. list_all (\<lambda>q. \<not> scoreable q) (fd_queries fd)) (concat corpus)
        \<longrightarrow> (\<exists>r eng'. cv_analyze_json_files lib cv_eng corpus = Inr (r, eng')
               \<and> cs_total_queries (ca_summary r) = 0
               \<and> cs_average_score (ca_summary r) = 0
               \<and> list_all (\<lambda>fs. cf_avg_score fs = 0) (ca_files r)))"
proof (intro conjI impI)
  show "analyze_file lib eng fd = analyze_file lib eng (fd\<lparr>fd_queries := filter scoreable (fd_queries fd)\<rparr>)"
    by (simp add: analyze_file_def query_loop_filter)
  show "cv_analyze_file lib cv_eng fd
        = cv_analyze_file lib cv_eng (fd\<lparr>fd_queries := filter scoreable (fd_queries fd)\<rparr>)"
    by (simp add: cv_analyze_file_def cv_query_loop_filter)
  show "\<exists>fs eng'. analyze_file lib eng fd = Inr (fs, eng')
          \<and> fs_query_count fs = int (length (filter scoreable (fd_queries fd)))
          \<and> length (fs_queries fs) = length (filter scoreable (fd_queries fd))"
    by (rule analyze_file_result)
  show "\<exists>fs eng'. cv_analyze_file lib cv_eng fd = Inr (fs, eng')
          \<and> cf_query_count fs = int (length (filter scoreable (fd_queries fd)))
          \<and> length (cf_queries fs) = length (filter scoreable (fd_queries fd))"
    by (rule cv_analyze_file_result)
  show "\<exists>r eng'. analyze_json_files lib eng corpus = Inr (r, eng')"
    by (rule analyze_json_files_total)
  show "\<exists>r eng'. cv_analyze_json_files lib cv_eng corpus = Inr (r, eng')"
    by (rule cv_analyze_json_files_total)
next
  assume "list_all (\<lambda>fd. list_all (\<lambda>q. \<not> scoreable q) (fd_queries fd)) (concat corpus)"
  then show "\<exists>r eng'. analyze_json_files lib eng corpus = Inr (r, eng')
               \<and> sm_total_queries (ar_summary r) = 0
               \<and> sm_average_raw_score (ar_summary r) = 0
               \<and> sm_average_normalized_score (ar_summary r) = 0
               \<and> list_all (\<lambda>fs. fs_avg_score fs = 0 \<and> fs_avg_normalized_score fs = 0) (ar_files r)"
    by (rule analyze_json_files_none)
next
  assume "list_all (\<lambda>fd. list_all (\<lambda>q. \<not> scoreable q) (fd_queries fd)) (concat corpus)"
  then show "\<exists>r eng'. cv_analyze_json_files lib cv_eng corpus = Inr (r, eng')
               \<and> cs_total_queries (ca_summary r) = 0
               \<and> cs_average_score (ca_summary r) = 0
               \<and> list_all (\<lambda>fs. cf_avg_score fs = 0) (ca_files r)"
    by (rule cv_analyze_json_files_none)
qed

theorem empty_sql_skipped_witness:
  "list_all (\<lambda>fd. list_all (\<lambda>q. \<not> scoreable q) (fd_queries fd)) (concat blank_queries)
   \<and> (\<exists>r eng'. analyze_json_files no_patterns (init_engine no_patterns no_rules ''ORA'') blank_queries
                  = Inr (r, eng')
               \<and> sm_total_queries (ar_summary r) = 0
               \<and> sm_average_raw_score (ar_summary r) = 0
               \<and> sm_average_normalized_score (ar_summary r) = 0
               \<and> list_all (\<lambda>fs. fs_avg_score fs = 0 \<and> fs_avg_normalized_score fs = 0) (ar_files r))
   \<and> (\<exists>r eng'. cv_analyze_json_files no_patterns (cv_init_engine no_patterns [] ''ORA'') blank_queries
                  = Inr (r, eng')
               \<and> cs_total_queries (ca_summary r) = 0
               \<and> cs_average_score (ca_summary r) = 0
               \<and> list_all (\<lambda>fs. cf_avg_score fs = 0) (ca_files r))"
proof -
  have h: "list_all (\<lambda>fd. list_all (\<lambda>q. \<not> scoreable q) (fd_queries fd)) (concat blank_queries)"
    by (simp add: blank_queries_def scoreable_def get_or_def)
  show ?thesis
    using h empty_sql_skipped [of no_patterns "init_engine no_patterns no_rules ''ORA''" _
              blank_queries "cv_init_engine no_patterns [] ''ORA''"]
    by blast
qed


section \<open>Properties of the preprocessing\<close>

lemma re_sub_Cons_None: "m (c # cs) = None \<Longrightarrow> re_sub m (c # cs) = c # re_sub m cs"
  by (simp add: re_sub.simps)

lemma re_sub_Nil: "re_sub m [] = []"
  by (simp add: re_sub.simps)

lemma simple_repD:
  assumes "simple_rep m r" "m u = Some (rep, rest)"
  shows "rep = [r]" "u \<noteq> []" "special (hd u)" "length rest < length u" "\<exists>k. rest = drop k u"
  using assms unfolding simple_rep_def by blast+

lemma re_sub_Cons_Some:
  "simple_rep m r \<Longrightarrow> m (c # cs) = Some (rep, rest) \<Longrightarrow> re_sub m (c # cs) = r # re_sub m rest"
  using simple_repD(1,4) [of m r "c # cs" rep rest] by (simp add: re_sub.simps)

lemma simple_rep_Nil: "simple_rep m r \<Longrightarrow> m [] = None"
proof (cases "m []")
  case (Some a)
  assume "simple_rep m r"
  then show ?thesis using Some simple_repD(2) [of m r "[]" "fst a" "snd a"] by simp
qed simp

lemma simple_rep_special: "simple_rep m r \<Longrightarrow> \<not> special c \<Longrightarrow> m (c # cs) = None"
proof (cases "m (c # cs)")
  case (Some a)
  assume "simple_rep m r" "\<not> special c"
  then show ?thesis using Some simple_repD(3) [of m r "c # cs" "fst a" "snd a"] by simp
qed simp

lemma simple_rep_not_special: "simple_rep m r \<Longrightarrow> \<not> special c \<Longrightarrow> c \<noteq> CHR ''?'' \<Longrightarrow> c \<noteq> r"
  by (auto simp: simple_rep_def special_def py_isspace_def)

lemma re_sub_head_copy:
  assumes "simple_rep m r" "re_sub m u = c # w" "c \<noteq> r"
  shows "\<exists>cs. u = c # cs \<and> w = re_sub m cs \<and> m u = None"
proof (cases u)
  case Nil
  then show ?thesis using assms(2) by (simp add: re_sub_Nil)
next
  case (Cons d ds)
  show ?thesis
  proof (cases "m (d # ds)")
    case None
    then show ?thesis using assms(2) Cons by (simp add: re_sub_Cons_None)
  next
    case (Some a)
    obtain rep rest where "a = (rep, rest)" by (cases a)
    then show ?thesis
      using assms Cons Some re_sub_Cons_Some [OF assms(1), of d ds rep rest] by simp
  qed
qed

lemma re_sub_plain_copy:
  "simple_rep m r \<Longrightarrow> \<not> special c \<Longrightarrow> re_sub m (c # cs) = c # re_sub m cs"
  by (simp add: re_sub_Cons_None simple_rep_special)

lemma re_sub_set:
  "simple_rep m r \<Longrightarrow> set (re_sub m u) \<subseteq> insert r (set u)"
proof (induction m u rule: re_sub.induct)
  case (1 m)
  then show ?case by (simp add: re_sub_Nil)
next
  case (2 m c cs)
  show ?case
  proof (cases "m (c # cs)")
    case None
    then show ?thesis using 2 by (auto simp: re_sub_Cons_None)
  next
    case (Some a)
    obtain rep rest where a: "a = (rep, rest)" by (cases a)
    have len: "length rest < length (c # cs)" and dr: "\<exists>k. rest = drop k (c # cs)"
      using simple_repD(4,5) [OF "2.prems", of "c # cs" rep rest] Some a by simp_all
    have "set (re_sub m rest) \<subseteq> insert r (set rest)"
      using "2.IH"(2) [OF Some a [symmetric] len "2.prems"] .
    moreover have "set rest \<subseteq> set (c # cs)"
      using dr by (auto dest: in_set_dropD)
    ultimately show ?thesis
      using re_sub_Cons_Some [OF "2.prems", of c cs rep rest] Some a by auto
  qed
qed

lemma re_sub_suffix:
  "simple_rep m r \<Longrightarrow> \<exists>k. drop n (re_sub m x) = re_sub m (drop k x)"
proof (induction m x arbitrary: n rule: re_sub.induct)
  case (1 m)
  then show ?case by (simp add: re_sub_Nil)
next
  case (2 m c cs)
  show ?case
  proof (cases n)
    case 0
    then show ?thesis by (intro exI [of _ 0]) simp
  next
    case (Suc n')
    show ?thesis
    proof (cases "m (c # cs)")
      case None
      obtain k where "drop n' (re_sub m cs) = re_sub m (drop k cs)"
        using "2.IH"(1) [OF None "2.prems"] by blast
      then show ?thesis
        using None Suc by (intro exI [of _ "Suc k"]) (simp add: re_sub_Cons_None)
    next
      case (Some a)
      obtain rep rest where a: "a = (rep, rest)" by (cases a)
      have len: "length rest < length (c # cs)"
        using simple_repD(4) [OF "2.prems", of "c # cs" rep rest] Some a by simp
      obtain j where j: "rest = drop j (c # cs)"
        using simple_repD(5) [OF "2.prems", of "c # cs" rep rest] Some a by auto
      obtain k where "drop n' (re_sub m rest) = re_sub m (drop k rest)"
        using "2.IH"(2) [OF Some a [symmetric] len "2.prems"] by blast
      then show ?thesis
        using re_sub_Cons_Some [OF "2.prems", of c cs rep rest] Some a Suc j
        by (intro exI [of _ "k + j"]) (simp add: add.commute)
    qed
  qed
qed

lemma nomatch_fixed: "nomatch m x \<Longrightarrow> re_sub m x = x"
proof (induction x)
  case Nil
  then show ?case by (simp add: re_sub_Nil)
next
  case (Cons c cs)
  have "m (c # cs) = None" using Cons.prems [unfolded nomatch_def, rule_format, of 0] by simp
  moreover have "nomatch m cs"
    unfolding nomatch_def
  proof
    fix n show "m (drop n cs) = None"
      using Cons.prems [unfolded nomatch_def, rule_format, of "Suc n"] by simp
  qed
  ultimately show ?case using Cons.IH by (simp add: re_sub_Cons_None)
qed

lemma nomatch_preserved:
  assumes "simple_rep m' r" "\<And>u. m u = None \<Longrightarrow> m (re_sub m' u) = None" "nomatch m x"
  shows "nomatch m (re_sub m' x)"
  unfolding nomatch_def
proof
  fix n
  obtain k where "drop n (re_sub m' x) = re_sub m' (drop k x)"
    using re_sub_suffix [OF assms(1)] by blast
  moreover have "m (drop k x) = None" using assms(3) by (simp add: nomatch_def)
  ultimately show "m (drop n (re_sub m' x)) = None" using assms(2) by simp
qed

lemma nomatch_self:
  assumes "simple_rep m r" "\<And>u. m u = None \<Longrightarrow> m (re_sub m u) = None" "\<And>t. m (r # t) = None"
  shows "nomatch m (re_sub m x)"
  unfolding nomatch_def
proof
  fix n
  obtain k where k: "drop n (re_sub m x) = re_sub m (drop k x)"
    using re_sub_suffix [OF assms(1)] by blast
  have "m (re_sub m u) = None" for u
  proof (cases "m u")
    case None
    then show ?thesis by (rule assms(2))
  next
    case (Some a)
    obtain rep rest where a: "a = (rep, rest)" by (cases a)
    obtain c cs where u: "u = c # cs"
      using Some simple_rep_Nil [OF assms(1)] by (cases u) auto
    show ?thesis
      using re_sub_Cons_Some [OF assms(1), of c cs rep rest] Some a u assms(3) by simp
  qed
  then show "m (drop n (re_sub m x)) = None" using k by simp
qed

lemma nomatch_drop: "nomatch m x \<Longrightarrow> nomatch m (drop k x)"
  by (simp add: nomatch_def)

lemma nomatch_strip:
  assumes mono: "\<And>v t. m (v @ t) = None \<Longrightarrow> m v = None" and "nomatch m y"
  shows "nomatch m (strip y)"
proof -
  define z where "z = dropWhile py_isspace y"
  have z: "nomatch m z"
    unfolding z_def dropWhile_eq_drop using assms(2) by (rule nomatch_drop)
  define w where "w = rev (dropWhile py_isspace (rev z))"
  define t where "t = rev (takeWhile py_isspace (rev z))"
  have "z = rev (takeWhile py_isspace (rev z) @ dropWhile py_isspace (rev z))"
    by (simp only: takeWhile_dropWhile_id rev_rev_ident)
  then have zw: "z = w @ t"
    by (simp only: rev_append w_def t_def)
  have "m (drop n w) = None" for n
  proof (cases "n \<le> length w")
    case True
    have "m (drop n z) = None" using z by (simp add: nomatch_def)
    then have "m (drop n w @ t) = None" using True zw by simp
    then show ?thesis by (rule mono)
  next
    case False
    have "m (drop (length w) z) = None" using z by (simp add: nomatch_def)
    then have "m ([] @ t) = None" using zw by simp
    then have "m [] = None" by (rule mono)
    then show ?thesis using False by simp
  qed
  then show ?thesis
    by (simp add: nomatch_def strip_def z_def w_def)
qed

lemma letter_upper: "letter p \<Longrightarrow> char_upper p \<in> set upper_letters"
  by (auto simp: letter_def lower_letters_def upper_letters_def char_upper_def)

lemma upper_letter: "char_upper c \<in> set upper_letters \<Longrightarrow> letter c"
proof (cases "map_of (zip lower_letters upper_letters) c")
  case None
  assume "char_upper c \<in> set upper_letters"
  then show ?thesis using None by (simp add: char_upper_def letter_def)
next
  case (Some u)
  then have "c \<in> set lower_letters"
    by (auto dest!: map_of_SomeD set_zip_leftD)
  then show ?thesis by (simp add: letter_def)
qed

lemma ci_letter: "letter p \<Longrightarrow> char_upper p = char_upper c \<Longrightarrow> letter c"
  using letter_upper [of p] upper_letter [of c] by simp

lemma letter_plain:
  "letter c \<Longrightarrow> \<not> special c \<and> c \<noteq> CHR ''?'' \<and> c \<noteq> CHR ''>'' \<and> c \<noteq> CHR '' ''"
  by (auto simp: letter_def lower_letters_def upper_letters_def special_def py_isspace_def)

lemma tag_names_letters: "name \<in> set tag_names \<Longrightarrow> p \<in> set name \<Longrightarrow> letter p"
  by (auto simp: tag_names_def letter_def lower_letters_def)

lemma rep_not_letter: "simple_rep m r \<Longrightarrow> \<not> letter r"
  by (auto simp: simple_rep_def letter_def lower_letters_def upper_letters_def)

lemma match_ci_drop: "match_ci name s = Some r \<Longrightarrow> r = drop (length name) s"
  by (induction name s rule: match_ci.induct) (auto split: if_splits)

lemma match_ci_append: "match_ci name v = Some r \<Longrightarrow> match_ci name (v @ t) = Some (r @ t)"
  by (induction name v rule: match_ci.induct) (auto split: if_splits)

lemma match_ci_short:
  "\<forall>p\<in>set name. letter p \<Longrightarrow> match_ci name v = None \<Longrightarrow> match_ci name (v @ t) \<noteq> None
   \<Longrightarrow> \<forall>c\<in>set v. letter c"
proof (induction name v rule: match_ci.induct)
  case (1 s)
  then show ?case by simp
next
  case (2 p ps)
  then show ?case by simp
next
  case (3 p ps c cs)
  have eq: "char_upper p = char_upper c"
    using "3.prems"(3) by (auto split: if_splits)
  then have "letter c" using "3.prems"(1) ci_letter [of p c] by simp
  moreover have "\<forall>c\<in>set cs. letter c"
    using 3 eq by simp
  ultimately show ?case by simp
qed

lemma match_ci_re_sub:
  assumes "simple_rep m r" "\<forall>p\<in>set name. letter p"
  shows "match_ci name (re_sub m u)
         = (case match_ci name u of None \<Rightarrow> None | Some u' \<Rightarrow> Some (re_sub m u'))"
  using assms(2)
proof (induction name u rule: match_ci.induct)
  case (1 s)
  then show ?case by simp
next
  case (2 p ps)
  then show ?case by (simp add: re_sub_Nil)
next
  case (3 p ps c cs)
  show ?case
  proof (cases "char_upper p = char_upper c")
    case True
    then have "letter c" using "3.prems" ci_letter [of p c] by simp
    then have "re_sub m (c # cs) = c # re_sub m cs"
      using re_sub_plain_copy [OF assms(1)] letter_plain by simp
    then show ?thesis using True 3 by simp
  next
    case False
    have "char_upper p \<noteq> char_upper r"
      using "3.prems" ci_letter [of p r] rep_not_letter [OF assms(1)] by auto
    then have "match_ci (p # ps) (re_sub m (c # cs)) = None"
    proof (cases "m (c # cs)")
      case None
      then show ?thesis using False by (simp add: re_sub_Cons_None)
    next
      case (Some a)
      assume "char_upper p \<noteq> char_upper r"
      then show ?thesis
        using re_sub_Cons_Some [OF assms(1), of c cs "fst a" "snd a"] Some by simp
    qed
    then show ?thesis using False by simp
  qed
qed

lemma match_alt_re_sub:
  assumes "simple_rep m r" "\<forall>name\<in>set ns. \<forall>p\<in>set name. letter p"
  shows "match_alt ns (re_sub m u)
         = (case match_alt ns u of None \<Rightarrow> None | Some u' \<Rightarrow> Some (re_sub m u'))"
  using assms(2)
proof (induction ns)
  case Nil
  then show ?case by simp
next
  case (Cons n ns)
  have "match_ci n (re_sub m u)
         = (case match_ci n u of None \<Rightarrow> None | Some u' \<Rightarrow> Some (re_sub m u'))"
    using match_ci_re_sub [OF assms(1), of n u] Cons.prems by simp
  then show ?case using Cons by (simp split: option.split)
qed

lemma match_alt_drop: "match_alt ns s = Some r \<Longrightarrow> \<exists>k. r = drop k s"
  by (induction ns) (auto split: option.splits dest: match_ci_drop)

lemma match_alt_append:
  "\<forall>name\<in>set ns. \<forall>p\<in>set name. letter p \<Longrightarrow> match_alt ns v = Some r'
   \<Longrightarrow> \<not> (\<forall>c\<in>set v. letter c) \<Longrightarrow> match_alt ns (v @ t) = Some (r' @ t)"
proof (induction ns)
  case Nil
  then show ?case by simp
next
  case (Cons n ns)
  show ?case
  proof (cases "match_ci n v")
    case (Some a)
    then show ?thesis using Cons.prems(2) match_ci_append [of n v a t] by simp
  next
    case None
    have "match_ci n (v @ t) = None"
    proof (rule ccontr)
      assume "match_ci n (v @ t) \<noteq> None"
      then have "\<forall>c\<in>set v. letter c"
        using match_ci_short [of n v t] None Cons.prems(1) by simp
      then show False using Cons.prems(3) by simp
    qed
    then show ?thesis using None Cons by simp
  qed
qed

lemma tag_letters: "\<forall>name\<in>set tag_names. \<forall>p\<in>set name. letter p"
  using tag_names_letters by blast

lemma drop_tl: "drop a ys = g # rest \<Longrightarrow> rest = drop (Suc a) ys"
  by (metis drop_Suc list.sel(3) tl_drop)

lemma dropWhile_as_drop: "\<exists>a. dropWhile P xs = drop a xs"
  using dropWhile_eq_drop by blast

lemma dropWhile_ConsD: "dropWhile P xs = y # ys \<Longrightarrow> y \<in> set xs \<and> \<not> P y"
proof -
  assume a: "dropWhile P xs = y # ys"
  then have "xs = takeWhile P xs @ y # ys" and "\<not> P y"
    by (simp_all add: dropWhile_eq_Cons_conv)
  then show ?thesis by (metis in_set_conv_decomp)
qed

lemma open_tag_at_None_iff:
  "open_tag_at u = None \<longleftrightarrow>
     \<not> (\<exists>r r'. u = CHR ''<'' # r \<and> match_alt tag_names r = Some r' \<and> CHR ''>'' \<in> set r')"
  by (auto simp: open_tag_at_def dropWhile_eq_Nil_conv not_gt_def
           split: list.splits option.splits dest: dropWhile_ConsD)

lemma close_tag_at_None_iff:
  "close_tag_at u = None \<longleftrightarrow>
     \<not> (\<exists>r r'. u = CHR ''<'' # CHR ''/'' # r \<and> match_alt tag_names r = Some (CHR ''>'' # r'))"
  by (auto simp: close_tag_at_def split: list.splits option.splits)

lemma param_at_None_iff:
  "param_at p u = None \<longleftrightarrow>
     \<not> (\<exists>r. u = p # CHR ''{'' # r \<and> r \<noteq> [] \<and> hd r \<noteq> CHR ''}'' \<and> CHR ''}'' \<in> set r)"
  by (cases u; cases "tl u"; cases "tl (tl u)")
     (auto simp: param_at_def dropWhile_eq_Nil_conv not_rbrace_def split: list.splits
           dest: dropWhile_ConsD)

lemma simple_rep_open: "simple_rep open_tag_at CHR '' ''"
  unfolding simple_rep_def
proof (intro conjI allI impI)
  fix u rep rest
  assume a: "open_tag_at u = Some (rep, rest)"
  then obtain r r' g where u: "u = CHR ''<'' # r" and ma: "match_alt tag_names r = Some r'"
    and dw: "dropWhile not_gt r' = g # rest" and rep: "rep = '' ''"
    by (auto simp: open_tag_at_def split: list.splits option.splits if_splits)
  obtain j where j: "r' = drop j r" using match_alt_drop [OF ma] by blast
  obtain a where "dropWhile not_gt r' = drop a r'" using dropWhile_as_drop by blast
  then have "drop (a + j) r = g # rest" using dw j by (simp add: add.commute)
  then have "rest = drop (Suc (a + j)) r" by (rule drop_tl)
  then have rest: "rest = drop (Suc (Suc (a + j))) u" using u by simp
  show "rep = [CHR '' '']" using rep by simp
  show "u \<noteq> []" using u by simp
  show "special (hd u)" using u by (simp add: special_def)
  show "length rest < length u" using rest u by simp
  show "\<exists>k. rest = drop k u" using rest by blast
qed simp

lemma simple_rep_close: "simple_rep close_tag_at CHR '' ''"
  unfolding simple_rep_def
proof (intro conjI allI impI)
  fix u rep rest
  assume a: "close_tag_at u = Some (rep, rest)"
  then obtain r where u: "u = CHR ''<'' # CHR ''/'' # r"
    and ma: "match_alt tag_names r = Some (CHR ''>'' # rest)" and rep: "rep = '' ''"
    by (auto simp: close_tag_at_def split: list.splits option.splits if_splits)
  obtain j where j: "CHR ''>'' # rest = drop j r" using match_alt_drop [OF ma] by blast
  then have "rest = drop (Suc j) r" using drop_tl [of j r "CHR ''>''" rest] by simp
  then have rest: "rest = drop (Suc (Suc (Suc j))) u" using u by simp
  show "rep = [CHR '' '']" using rep by simp
  show "u \<noteq> []" using u by simp
  show "special (hd u)" using u by (simp add: special_def)
  show "length rest < length u" using rest u by simp
  show "\<exists>k. rest = drop k u" using rest by blast
qed simp

lemma simple_rep_param:
  "p = CHR ''#'' \<or> p = CHR ''$'' \<Longrightarrow> simple_rep (param_at p) CHR ''?''"
  unfolding simple_rep_def
proof (intro conjI allI impI)
  fix u rep rest
  assume p: "p = CHR ''#'' \<or> p = CHR ''$''"
  assume a: "param_at p u = Some (rep, rest)"
  then obtain r g where u: "u = p # CHR ''{'' # r"
    and dw: "dropWhile not_rbrace r = g # rest" and rep: "rep = ''?''"
    by (auto simp: param_at_def split: list.splits option.splits if_splits)
  obtain a where "dropWhile not_rbrace r = drop a r" using dropWhile_as_drop by blast
  then have "rest = drop (Suc a) r" using dw drop_tl [of a r g rest] by simp
  then have rest: "rest = drop (Suc (Suc (Suc a))) u" using u by simp
  show "rep = [CHR ''?'']" using rep by simp
  show "u \<noteq> []" using u by simp
  show "special (hd u)" using u p by (auto simp: special_def)
  show "length rest < length u" using rest u by simp
  show "\<exists>k. rest = drop k u" using rest by blast
qed simp

lemma simple_rep_spaces: "simple_rep spaces_at CHR '' ''"
  unfolding simple_rep_def
proof (intro conjI allI impI)
  fix u rep rest
  assume a: "spaces_at u = Some (rep, rest)"
  then obtain c cs where u: "u = c # cs" and sp: "py_isspace c"
    and rest0: "rest = dropWhile py_isspace cs" and rep: "rep = '' ''"
    by (auto simp: spaces_at_def split: list.splits if_splits)
  obtain a where "dropWhile py_isspace cs = drop a cs" using dropWhile_as_drop by blast
  then have rest: "rest = drop (Suc a) u" using rest0 u by simp
  show "rep = [CHR '' '']" using rep by simp
  show "u \<noteq> []" using u by simp
  show "special (hd u)" using u sp by (simp add: special_def)
  show "length rest < length u" using rest u by simp
  show "\<exists>k. rest = drop k u" using rest by blast
qed simp

lemma open_tag_atE:
  "open_tag_at u \<noteq> None
   \<Longrightarrow> \<exists>r r'. u = CHR ''<'' # r \<and> match_alt tag_names r = Some r' \<and> CHR ''>'' \<in> set r'"
  by (simp add: open_tag_at_None_iff)

lemma open_tag_atI:
  "u = CHR ''<'' # r \<Longrightarrow> match_alt tag_names r = Some r' \<Longrightarrow> CHR ''>'' \<in> set r'
   \<Longrightarrow> open_tag_at u \<noteq> None"
  by (simp add: open_tag_at_None_iff)

lemma close_tag_atE:
  "close_tag_at u \<noteq> None
   \<Longrightarrow> \<exists>r r'. u = CHR ''<'' # CHR ''/'' # r \<and> match_alt tag_names r = Some (CHR ''>'' # r')"
  by (simp add: close_tag_at_None_iff)

lemma close_tag_atI:
  "u = CHR ''<'' # CHR ''/'' # r \<Longrightarrow> match_alt tag_names r = Some (CHR ''>'' # r')
   \<Longrightarrow> close_tag_at u \<noteq> None"
  by (simp add: close_tag_at_None_iff)

lemma param_atE:
  "param_at p u \<noteq> None
   \<Longrightarrow> \<exists>r. u = p # CHR ''{'' # r \<and> r \<noteq> [] \<and> hd r \<noteq> CHR ''}'' \<and> CHR ''}'' \<in> set r"
  by (simp add: param_at_None_iff)

lemma param_atI:
  "u = p # CHR ''{'' # r \<Longrightarrow> r \<noteq> [] \<Longrightarrow> hd r \<noteq> CHR ''}'' \<Longrightarrow> CHR ''}'' \<in> set r
   \<Longrightarrow> param_at p u \<noteq> None"
  by (simp add: param_at_None_iff)

lemma open_through:
  assumes "simple_rep m r" "open_tag_at u = None"
  shows "open_tag_at (re_sub m u) = None"
proof (rule ccontr)
  assume "open_tag_at (re_sub m u) \<noteq> None"
  then obtain w w' where w: "re_sub m u = CHR ''<'' # w"
    and ma: "match_alt tag_names w = Some w'" and gt: "CHR ''>'' \<in> set w'"
    using open_tag_atE by blast
  have "CHR ''<'' \<noteq> r" using assms(1) by (auto simp: simple_rep_def)
  then obtain u1 where u: "u = CHR ''<'' # u1" and w1: "w = re_sub m u1"
    using re_sub_head_copy [OF assms(1) w] by blast
  obtain u' where mu: "match_alt tag_names u1 = Some u'" and w': "w' = re_sub m u'"
    using ma match_alt_re_sub [OF assms(1) tag_letters, of u1] w1
    by (auto split: option.splits)
  have "CHR ''>'' \<noteq> r" using assms(1) by (auto simp: simple_rep_def)
  then have "CHR ''>'' \<in> set u'"
    using gt w' re_sub_set [OF assms(1), of u'] by auto
  then have "open_tag_at u \<noteq> None"
    using open_tag_atI [OF u mu] by simp
  then show False using assms(2) by simp
qed

lemma close_through:
  assumes "simple_rep m r" "close_tag_at u = None"
  shows "close_tag_at (re_sub m u) = None"
proof (rule ccontr)
  assume "close_tag_at (re_sub m u) \<noteq> None"
  then obtain w w' where w: "re_sub m u = CHR ''<'' # CHR ''/'' # w"
    and ma: "match_alt tag_names w = Some (CHR ''>'' # w')"
    using close_tag_atE by blast
  have ne: "CHR ''<'' \<noteq> r" "CHR ''/'' \<noteq> r" "CHR ''>'' \<noteq> r"
    using assms(1) by (auto simp: simple_rep_def)
  obtain u1 where u: "u = CHR ''<'' # u1" and w1: "CHR ''/'' # w = re_sub m u1"
    using re_sub_head_copy [OF assms(1) w ne(1)] by blast
  obtain u2 where u1: "u1 = CHR ''/'' # u2" and w2: "w = re_sub m u2"
    using re_sub_head_copy [OF assms(1) w1 [symmetric] ne(2)] by blast
  obtain u' where mu: "match_alt tag_names u2 = Some u'" and w': "CHR ''>'' # w' = re_sub m u'"
    using ma match_alt_re_sub [OF assms(1) tag_letters, of u2] w2
    by (auto split: option.splits)
  obtain u3 where "u' = CHR ''>'' # u3"
    using re_sub_head_copy [OF assms(1) w' [symmetric] ne(3)] by blast
  then have "close_tag_at u \<noteq> None"
    using close_tag_atI [of u u2 u3] u u1 mu by simp
  then show False using assms(2) by simp
qed

lemma param_through:
  assumes "simple_rep m r" "p = CHR ''#'' \<or> p = CHR ''$''" "param_at p u = None"
  shows "param_at p (re_sub m u) = None"
proof (rule ccontr)
  assume "param_at p (re_sub m u) \<noteq> None"
  then obtain w where w: "re_sub m u = p # CHR ''{'' # w"
    and wn: "w \<noteq> []" and hw: "hd w \<noteq> CHR ''}''" and rb: "CHR ''}'' \<in> set w"
    using param_atE by blast
  have ne: "p \<noteq> r" "CHR ''{'' \<noteq> r" "CHR ''}'' \<noteq> r"
    using assms(1,2) by (auto simp: simple_rep_def)
  obtain u1 where u: "u = p # u1" and w1: "CHR ''{'' # w = re_sub m u1"
    using re_sub_head_copy [OF assms(1) w ne(1)] by blast
  obtain u2 where u1: "u1 = CHR ''{'' # u2" and w2: "w = re_sub m u2"
    using re_sub_head_copy [OF assms(1) w1 [symmetric] ne(2)] by blast
  have "u2 \<noteq> []" using wn w2 by (auto simp: re_sub_Nil)
  moreover have "hd u2 \<noteq> CHR ''}''"
  proof
    assume h: "hd u2 = CHR ''}''"
    obtain c cs where "u2 = c # cs" using \<open>u2 \<noteq> []\<close> by (cases u2) auto
    then have "u2 = CHR ''}'' # cs" using h by simp
    moreover have "\<not> special CHR ''}''" by (simp add: special_def py_isspace_def)
    ultimately have "w = CHR ''}'' # re_sub m cs"
      using w2 re_sub_plain_copy [OF assms(1)] by simp
    then show False using hw by simp
  qed
  moreover have "CHR ''}'' \<in> set u2"
    using rb w2 re_sub_set [OF assms(1), of u2] ne(3) by auto
  ultimately have "param_at p u \<noteq> None"
    using param_atI [of u p u2] u u1 by simp
  then show False using assms(3) by simp
qed

lemma open_rep_first: "r = CHR '' '' \<or> r = CHR ''?'' \<Longrightarrow> open_tag_at (r # t) = None"
  by (auto simp: open_tag_at_def)

lemma close_rep_first: "r = CHR '' '' \<or> r = CHR ''?'' \<Longrightarrow> close_tag_at (r # t) = None"
  by (auto simp: close_tag_at_def)

lemma param_rep_first:
  "p = CHR ''#'' \<or> p = CHR ''$'' \<Longrightarrow> r = CHR '' '' \<or> r = CHR ''?'' \<Longrightarrow> param_at p (r # t) = None"
  by (auto simp: param_at_def)

lemma gt_not_letter: "\<not> letter CHR ''>''"
  by (simp add: letter_def lower_letters_def upper_letters_def)

lemma open_append:
  assumes "open_tag_at (v @ t) = None"
  shows "open_tag_at v = None"
proof (rule ccontr)
  assume "open_tag_at v \<noteq> None"
  then obtain w w' where v: "v = CHR ''<'' # w"
    and ma: "match_alt tag_names w = Some w'" and gt: "CHR ''>'' \<in> set w'"
    using open_tag_atE by blast
  obtain k where "w' = drop k w" using match_alt_drop [OF ma] by blast
  then have "CHR ''>'' \<in> set w" using gt by (auto dest: in_set_dropD)
  then have "\<not> (\<forall>c\<in>set w. letter c)" using gt_not_letter by blast
  then have "match_alt tag_names (w @ t) = Some (w' @ t)"
    using match_alt_append [OF tag_letters ma] by simp
  then have "open_tag_at (v @ t) \<noteq> None"
    using open_tag_atI [of "v @ t" "w @ t" "w' @ t"] v gt by simp
  then show False using assms by simp
qed

lemma close_append:
  assumes "close_tag_at (v @ t) = None"
  shows "close_tag_at v = None"
proof (rule ccontr)
  assume "close_tag_at v \<noteq> None"
  then obtain w w' where v: "v = CHR ''<'' # CHR ''/'' # w"
    and ma: "match_alt tag_names w = Some (CHR ''>'' # w')"
    using close_tag_atE by blast
  obtain k where "CHR ''>'' # w' = drop k w" using match_alt_drop [OF ma] by blast
  then have "CHR ''>'' \<in> set w" by (metis in_set_dropD list.set_intros(1))
  then have "\<not> (\<forall>c\<in>set w. letter c)" using gt_not_letter by blast
  then have "match_alt tag_names (w @ t) = Some ((CHR ''>'' # w') @ t)"
    using match_alt_append [OF tag_letters ma] by simp
  then have "close_tag_at (v @ t) \<noteq> None"
    using close_tag_atI [of "v @ t" "w @ t" "w' @ t"] v by simp
  then show False using assms by simp
qed

lemma param_append:
  assumes "param_at p (v @ t) = None"
  shows "param_at p v = None"
proof (rule ccontr)
  assume "param_at p v \<noteq> None"
  then obtain w where v: "v = p # CHR ''{'' # w"
    and wn: "w \<noteq> []" and hw: "hd w \<noteq> CHR ''}''" and rb: "CHR ''}'' \<in> set w"
    using param_atE by blast
  have "v @ t = p # CHR ''{'' # (w @ t)" "w @ t \<noteq> []" "hd (w @ t) \<noteq> CHR ''}''"
    "CHR ''}'' \<in> set (w @ t)"
    using v wn hw rb by simp_all
  then have "param_at p (v @ t) \<noteq> None"
    using param_atI [of "v @ t" p "w @ t"] by simp
  then show False using assms by simp
qed

lemma re_sub_spaces_head:
  "\<not> py_isspace d \<Longrightarrow> re_sub spaces_at (d # ds) = d # re_sub spaces_at ds"
  by (simp add: re_sub_Cons_None spaces_at_def)

lemma re_sub_spaces_space:
  "py_isspace c \<Longrightarrow> re_sub spaces_at (c # cs) = CHR '' '' # re_sub spaces_at (dropWhile py_isspace cs)"
  using re_sub_Cons_Some [OF simple_rep_spaces, of c cs "'' ''" "dropWhile py_isspace cs"]
  by (simp add: spaces_at_def)

lemma space_is_space: "py_isspace CHR '' ''"
  by (simp add: py_isspace_def)

lemma ws_normal_re_sub: "ws_normal (re_sub spaces_at x)"
proof (induction x rule: length_induct)
  case (1 x)
  show ?case
  proof (cases x)
    case Nil
    then show ?thesis by (simp add: re_sub_Nil)
  next
    case (Cons c cs)
    show ?thesis
    proof (cases "py_isspace c")
      case False
      have "ws_normal (re_sub spaces_at cs)" using 1 Cons by simp
      then show ?thesis using False Cons by (simp add: re_sub_spaces_head)
    next
      case True
      define rest where "rest = dropWhile py_isspace cs"
      have "length rest < length x"
        using Cons length_dropWhile_le [of py_isspace cs] by (simp add: rest_def)
      then have n: "ws_normal (re_sub spaces_at rest)" using 1 by simp
      have "case re_sub spaces_at rest of [] \<Rightarrow> True | d # _ \<Rightarrow> \<not> py_isspace d"
      proof (cases rest)
        case Nil
        then show ?thesis by (simp add: re_sub_Nil)
      next
        case (Cons d ds)
        then have "\<not> py_isspace d"
          using hd_dropWhile [of py_isspace cs] by (simp add: rest_def)
        then show ?thesis using Cons by (simp add: re_sub_spaces_head)
      qed
      then show ?thesis
        using n True Cons by (simp add: re_sub_spaces_space rest_def)
    qed
  qed
qed

lemma ws_normal_fixed: "ws_normal y \<Longrightarrow> re_sub spaces_at y = y"
proof (induction y)
  case Nil
  then show ?case by (simp add: re_sub_Nil)
next
  case (Cons c cs)
  show ?case
  proof (cases "py_isspace c")
    case False
    then show ?thesis using Cons by (simp add: re_sub_spaces_head)
  next
    case True
    have "dropWhile py_isspace cs = cs"
      using Cons.prems True by (cases cs) simp_all
    then show ?thesis using Cons True by (simp add: re_sub_spaces_space)
  qed
qed

lemma ws_normal_drop: "ws_normal y \<Longrightarrow> ws_normal (drop k y)"
proof (induction y arbitrary: k)
  case Nil
  then show ?case by simp
next
  case (Cons c cs)
  then show ?case by (cases k) simp_all
qed

lemma ws_normal_prefix: "ws_normal (a @ b) \<Longrightarrow> ws_normal a"
proof (induction a)
  case Nil
  then show ?case by simp
next
  case (Cons c cs)
  then show ?case by (cases cs) (auto split: if_splits)
qed

lemma strip_decomp: "\<exists>k t. strip y @ t = drop k y"
proof -
  define z where "z = dropWhile py_isspace y"
  have "z = rev (takeWhile py_isspace (rev z) @ dropWhile py_isspace (rev z))"
    by (simp only: takeWhile_dropWhile_id rev_rev_ident)
  then have "z = strip y @ rev (takeWhile py_isspace (rev z))"
    by (simp only: rev_append strip_def z_def)
  moreover have "z = drop (length (takeWhile py_isspace y)) y"
    by (simp add: z_def dropWhile_eq_drop)
  ultimately show ?thesis by metis
qed

lemma ws_normal_strip: "ws_normal y \<Longrightarrow> ws_normal (strip y)"
proof -
  assume a: "ws_normal y"
  obtain k t where "strip y @ t = drop k y" using strip_decomp by blast
  then have "ws_normal (strip y @ t)" using a ws_normal_drop by simp
  then show ?thesis by (rule ws_normal_prefix)
qed

lemma strip_idem: "strip (strip y) = strip y"
proof -
  define z where "z = dropWhile py_isspace y"
  define w where "w = rev (dropWhile py_isspace (rev z))"
  have sw: "strip y = w" by (simp add: strip_def z_def w_def)
  have zw: "z = w @ rev (takeWhile py_isspace (rev z))"
  proof -
    have "z = rev (takeWhile py_isspace (rev z) @ dropWhile py_isspace (rev z))"
      by (simp only: takeWhile_dropWhile_id rev_rev_ident)
    then show ?thesis by (simp only: rev_append w_def)
  qed
  have head: "dropWhile py_isspace w = w"
  proof (cases w)
    case Nil
    then show ?thesis by simp
  next
    case (Cons c cs)
    then have "z = c # (cs @ rev (takeWhile py_isspace (rev z)))" using zw by simp
    then have "\<not> py_isspace c"
      using dropWhile_ConsD [of py_isspace y c] by (simp add: z_def)
    then show ?thesis using Cons by simp
  qed
  have tail: "dropWhile py_isspace (rev w) = rev w"
    by (simp add: w_def)
  have "strip w = rev (dropWhile py_isspace (rev w))"
    unfolding strip_def by (simp only: head)
  also have "\<dots> = w" by (simp only: tail rev_rev_ident)
  finally show ?thesis by (simp only: sw)
qed

lemma preprocess_steps:
  "preprocess_sql y =
     strip (re_sub spaces_at (re_sub (param_at CHR ''$'') (re_sub (param_at CHR ''#'')
       (re_sub close_tag_at (re_sub open_tag_at (re_sub cdata_at y))))))"
  by (simp add: preprocess_sql_def Let_def)

lemma preprocess_clean:
  "nomatch open_tag_at (preprocess_sql s) \<and> nomatch close_tag_at (preprocess_sql s)
   \<and> nomatch (param_at CHR ''#'') (preprocess_sql s)
   \<and> nomatch (param_at CHR ''$'') (preprocess_sql s)
   \<and> ws_normal (preprocess_sql s) \<and> strip (preprocess_sql s) = preprocess_sql s"
proof -
  define x1 where "x1 = re_sub open_tag_at (re_sub cdata_at s)"
  define x2 where "x2 = re_sub close_tag_at x1"
  define x3 where "x3 = re_sub (param_at CHR ''#'') x2"
  define x4 where "x4 = re_sub (param_at CHR ''$'') x3"
  define x5 where "x5 = re_sub spaces_at x4"
  have out: "preprocess_sql s = strip x5"
    by (simp only: preprocess_steps x1_def x2_def x3_def x4_def x5_def)
  have hash: "CHR ''#'' = CHR ''#'' \<or> CHR ''#'' = CHR ''$''" by simp
  have dollar: "CHR ''$'' = CHR ''#'' \<or> CHR ''$'' = CHR ''$''" by simp
  have sp: "CHR '' '' = CHR '' '' \<or> CHR '' '' = CHR ''?''" by simp
  have qm: "CHR ''?'' = CHR '' '' \<or> CHR ''?'' = CHR ''?''" by simp
  have o1: "nomatch open_tag_at x1"
    unfolding x1_def
    by (rule nomatch_self [OF simple_rep_open open_through [OF simple_rep_open] open_rep_first [OF sp]])
  have o2: "nomatch open_tag_at x2"
    unfolding x2_def
    by (rule nomatch_preserved [OF simple_rep_close open_through [OF simple_rep_close] o1])
  have o3: "nomatch open_tag_at x3"
    unfolding x3_def
    by (rule nomatch_preserved [OF simple_rep_param [OF hash]
              open_through [OF simple_rep_param [OF hash]] o2])
  have o4: "nomatch open_tag_at x4"
    unfolding x4_def
    by (rule nomatch_preserved [OF simple_rep_param [OF dollar]
              open_through [OF simple_rep_param [OF dollar]] o3])
  have o5: "nomatch open_tag_at x5"
    unfolding x5_def
    by (rule nomatch_preserved [OF simple_rep_spaces open_through [OF simple_rep_spaces] o4])
  have c2: "nomatch close_tag_at x2"
    unfolding x2_def
    by (rule nomatch_self [OF simple_rep_close close_through [OF simple_rep_close]
              close_rep_first [OF sp]])
  have c3: "nomatch close_tag_at x3"
    unfolding x3_def
    by (rule nomatch_preserved [OF simple_rep_param [OF hash]
              close_through [OF simple_rep_param [OF hash]] c2])
  have c4: "nomatch close_tag_at x4"
    unfolding x4_def
    by (rule nomatch_preserved [OF simple_rep_param [OF dollar]
              close_through [OF simple_rep_param [OF dollar]] c3])
  have c5: "nomatch close_tag_at x5"
    unfolding x5_def
    by (rule nomatch_preserved [OF simple_rep_spaces close_through [OF simple_rep_spaces] c4])
  have h3: "nomatch (param_at CHR ''#'') x3"
    unfolding x3_def
    by (rule nomatch_self [OF simple_rep_param [OF hash]
              param_through [OF simple_rep_param [OF hash] hash] param_rep_first [OF hash qm]])
  have h4: "nomatch (param_at CHR ''#'') x4"
    unfolding x4_def
    by (rule nomatch_preserved [OF simple_rep_param [OF dollar]
              param_through [OF simple_rep_param [OF dollar] hash] h3])
  have h5: "nomatch (param_at CHR ''#'') x5"
    unfolding x5_def
    by (rule nomatch_preserved [OF simple_rep_spaces param_through [OF simple_rep_spaces hash] h4])
  have d4: "nomatch (param_at CHR ''$'') x4"
    unfolding x4_def
    by (rule nomatch_self [OF simple_rep_param [OF dollar]
              param_through [OF simple_rep_param [OF dollar] dollar]
              param_rep_first [OF dollar qm]])
  have d5: "nomatch (param_at CHR ''$'') x5"
    unfolding x5_def
    by (rule nomatch_preserved [OF simple_rep_spaces param_through [OF simple_rep_spaces dollar] d4])
  have w5: "ws_normal x5"
    unfolding x5_def by (rule ws_normal_re_sub)
  show ?thesis
    unfolding out
    using nomatch_strip [OF open_append o5] nomatch_strip [OF close_append c5]
      nomatch_strip [OF param_append h5] nomatch_strip [OF param_append d5]
      ws_normal_strip [OF w5] strip_idem [of x5]
    by simp
qed

lemma re_sub_length: "simple_rep m r \<Longrightarrow> length (re_sub m x) \<le> length x"
proof (induction m x rule: re_sub.induct)
  case (1 m)
  then show ?case by (simp add: re_sub_Nil)
next
  case (2 m c cs)
  show ?case
  proof (cases "m (c # cs)")
    case None
    then show ?thesis using 2 by (simp add: re_sub_Cons_None)
  next
    case (Some a)
    obtain rep rest where a: "a = (rep, rest)" by (cases a)
    have len: "length rest < length (c # cs)"
      using simple_repD(4) [OF "2.prems", of "c # cs" rep rest] Some a by simp
    have "length (re_sub m rest) \<le> length rest"
      using "2.IH"(2) [OF Some a [symmetric] len "2.prems"] .
    then show ?thesis
      using re_sub_Cons_Some [OF "2.prems", of c cs rep rest] Some a len by simp
  qed
qed

lemma strip_length: "length (strip y) \<le> length y"
proof -
  have "length (strip y) = length (dropWhile py_isspace (rev (dropWhile py_isspace y)))"
    unfolding strip_def by (simp only: length_rev)
  also have "\<dots> \<le> length (rev (dropWhile py_isspace y))"
    by (rule length_dropWhile_le)
  also have "\<dots> = length (dropWhile py_isspace y)" by (simp only: length_rev)
  also have "\<dots> \<le> length y" by (rule length_dropWhile_le)
  finally show ?thesis .
qed

lemma split_first_decomp: "split_first sub s = Some (a, b) \<Longrightarrow> s = a @ sub @ b"
proof (induction s arbitrary: a)
  case Nil
  then show ?case by (simp split: if_splits)
next
  case (Cons c cs)
  show ?case
  proof (cases "startswith (c # cs) sub")
    case True
    then have "take (length sub) (c # cs) = sub" by (simp add: startswith_def)
    then have "c # cs = sub @ drop (length sub) (c # cs)"
      by (metis append_take_drop_id)
    then show ?thesis using Cons.prems True by simp
  next
    case False
    then obtain a' where "split_first sub cs = Some (a', b)" and "a = c # a'"
      using Cons.prems by (auto split: option.splits)
    then show ?thesis using Cons.IH by simp
  qed
qed

lemma cdata_at_length:
  "cdata_at u = Some (inner, rest) \<Longrightarrow> length inner + length rest < length u"
proof -
  assume a: "cdata_at u = Some (inner, rest)"
  then obtain r where r: "match_lit ''<![CDATA['' u = Some r" and sf: "split_first '']]>'' r = Some (inner, rest)"
    by (auto simp: cdata_at_def split: option.splits)
  have "\<exists>k. r = drop k u" using r by (auto simp: match_lit_def split: if_splits)
  then have "length r \<le> length u" by auto
  moreover have "length r = length inner + 3 + length rest"
    using split_first_decomp [OF sf] by simp
  ultimately show ?thesis by simp
qed

lemma cdata_length:
  "length (re_sub cdata_at x) \<le> length x
   \<and> (re_sub cdata_at x \<noteq> x \<longrightarrow> length (re_sub cdata_at x) < length x)"
proof (induction cdata_at x rule: re_sub.induct)
  case 1
  then show ?case by (simp add: re_sub_Nil)
next
  case (2 c cs)
  show ?case
  proof (cases "cdata_at (c # cs)")
    case None
    then show ?thesis using "2.hyps"(1) by (simp add: re_sub_Cons_None)
  next
    case (Some a)
    obtain inner rest where a: "a = (inner, rest)" by (cases a)
    have len: "length inner + length rest < length (c # cs)"
      using cdata_at_length [of "c # cs" inner rest] Some a by simp
    then have lr: "length rest < length (c # cs)" by simp
    have "length (re_sub cdata_at rest) \<le> length rest"
      using "2.hyps"(2) [OF Some a [symmetric] lr] by simp
    moreover have "re_sub cdata_at (c # cs) = inner @ re_sub cdata_at rest"
      using Some a lr by (simp add: re_sub.simps)
    ultimately show ?thesis using len by simp
  qed
qed

lemma preprocess_length_after_cdata:
  "length (preprocess_sql y) \<le> length (re_sub cdata_at y)"
proof -
  have hash: "CHR ''#'' = CHR ''#'' \<or> CHR ''#'' = CHR ''$''" by simp
  have dollar: "CHR ''$'' = CHR ''#'' \<or> CHR ''$'' = CHR ''$''" by simp
  define x0 where "x0 = re_sub cdata_at y"
  define x1 where "x1 = re_sub open_tag_at x0"
  define x2 where "x2 = re_sub close_tag_at x1"
  define x3 where "x3 = re_sub (param_at CHR ''#'') x2"
  define x4 where "x4 = re_sub (param_at CHR ''$'') x3"
  define x5 where "x5 = re_sub spaces_at x4"
  have out: "preprocess_sql y = strip x5"
    by (simp only: preprocess_steps x0_def x1_def x2_def x3_def x4_def x5_def)
  have "length (strip x5) \<le> length x5" by (rule strip_length)
  also have "\<dots> \<le> length x4" unfolding x5_def by (rule re_sub_length [OF simple_rep_spaces])
  also have "\<dots> \<le> length x3" unfolding x4_def by (rule re_sub_length [OF simple_rep_param [OF dollar]])
  also have "\<dots> \<le> length x2" unfolding x3_def by (rule re_sub_length [OF simple_rep_param [OF hash]])
  also have "\<dots> \<le> length x1" unfolding x2_def by (rule re_sub_length [OF simple_rep_close])
  also have "\<dots> \<le> length x0" unfolding x1_def by (rule re_sub_length [OF simple_rep_open])
  finally show ?thesis by (simp only: out x0_def)
qed

lemma preprocess_fixed_no_cdata:
  assumes "preprocess_sql y = y"
  shows "re_sub cdata_at y = y"
proof (rule ccontr)
  assume "re_sub cdata_at y \<noteq> y"
  then have "length (re_sub cdata_at y) < length y" using cdata_length [of y] by simp
  then have "length (preprocess_sql y) < length y"
    using preprocess_length_after_cdata [of y] by simp
  then show False using assms by simp
qed

text \<open>
  C3 (as amended). Preprocessing a preprocessed text gives it back exactly when the
  preprocessed text holds no complete CDATA section, that is, when the CDATA step leaves
  it as it is. The other steps never change a preprocessed text: it holds no tag, no
  placeholder and no white space but single inner blanks. Where a CDATA section is left,
  the second pass unwraps it and gives a shorter text.
\<close>

theorem preprocess_idempotent_iff_no_cdata:
  "preprocess_sql (preprocess_sql s) = preprocess_sql s
   \<longleftrightarrow> re_sub cdata_at (preprocess_sql s) = preprocess_sql s"
proof
  assume "preprocess_sql (preprocess_sql s) = preprocess_sql s"
  then show "re_sub cdata_at (preprocess_sql s) = preprocess_sql s"
    by (rule preprocess_fixed_no_cdata)
next
  assume no_cdata: "re_sub cdata_at (preprocess_sql s) = preprocess_sql s"
  define y where "y = preprocess_sql s"
  have a: "re_sub cdata_at y = y" using no_cdata by (simp add: y_def)
  have b: "re_sub open_tag_at y = y" "re_sub close_tag_at y = y"
    "re_sub (param_at CHR ''#'') y = y" "re_sub (param_at CHR ''$'') y = y"
    "re_sub spaces_at y = y" "strip y = y"
    using preprocess_clean [of s]
    by (simp_all add: y_def nomatch_fixed ws_normal_fixed)
  have "preprocess_sql y = y"
    by (simp only: preprocess_steps a b)
  then show "preprocess_sql (preprocess_sql s) = preprocess_sql s" by (simp only: y_def)
qed

theorem preprocess_idempotent_iff_no_cdata_witness:
  "re_sub cdata_at (preprocess_sql ''  SELECT <if test=x>a</if>  #{b}, ${c} FROM <![CDATA[ t < u ]]>  '')
     = preprocess_sql ''  SELECT <if test=x>a</if>  #{b}, ${c} FROM <![CDATA[ t < u ]]>  ''
   \<and> preprocess_sql (preprocess_sql ''  SELECT <if test=x>a</if>  #{b}, ${c} FROM <![CDATA[ t < u ]]>  '')
     = preprocess_sql ''  SELECT <if test=x>a</if>  #{b}, ${c} FROM <![CDATA[ t < u ]]>  ''
   \<and> preprocess_sql ''  SELECT <if test=x>a</if>  #{b}, ${c} FROM <![CDATA[ t < u ]]>  ''
     = ''SELECT a ?, ? FROM t < u''"
proof -
  have v: "preprocess_sql ''  SELECT <if test=x>a</if>  #{b}, ${c} FROM <![CDATA[ t < u ]]>  ''
     = ''SELECT a ?, ? FROM t < u''"
    by code_simp
  have h: "re_sub cdata_at ''SELECT a ?, ? FROM t < u'' = ''SELECT a ?, ? FROM t < u''"
    by code_simp
  show ?thesis
    using preprocess_idempotent_iff_no_cdata
            [of "''  SELECT <if test=x>a</if>  #{b}, ${c} FROM <![CDATA[ t < u ]]>  ''"]
          v h
    by simp
qed

theorem preprocess_not_idempotent_counterexample:
  "preprocess_sql (preprocess_sql ''<![CDATA[<![CDATA[x]]>]]>'')
   \<noteq> preprocess_sql ''<![CDATA[<![CDATA[x]]>]]>''"
  by code_simp

end
